theory Spec2Isabelle
  imports Complex_Main "HOL-Library.Word" "HOL-Library.Signed_Division" "HOL-Library.Sublist"
    "HOL-Library.Log_Nat"
begin

unbundle bit_operations_syntax

section \<open>Python strings\<close>

text \<open>
  A Python \<open>str\<close> is a sequence of Unicode code points; \<open>len\<close>, indexing and iteration
  count code points. A string is therefore a list of code points, and \<open>ord\<close> of a
  one-character string is the code point itself.
\<close>

type_synonym codepoint = nat
type_synonym pystr = "codepoint list"

definition str :: "string \<Rightarrow> pystr" where
  "str s = map of_char s"

text \<open>
  The methods \<open>str.isalpha\<close>, \<open>str.isspace\<close>, \<open>str.upper\<close> and \<open>str.lower\<close> consult the
  Unicode character database of the interpreter, which is no part of the repository.
  The database is a parameter of every function that calls one of these methods.
  \<open>upper_cp\<close> is the full upper-case mapping of one character; its result may have more
  than one character (\<open>'\<ss>'.upper()\<close> is \<open>'SS'\<close>). \<open>lower_at s i\<close> is the lower-case
  mapping of the character at index \<open>i\<close> of \<open>s\<close>; it receives the whole string because
  the mapping of a capital sigma depends on its neighbours.
\<close>

record ucd =
  isalpha :: "codepoint \<Rightarrow> bool"
  isspace :: "codepoint \<Rightarrow> bool"
  upper_cp :: "codepoint \<Rightarrow> pystr"
  lower_at :: "pystr \<Rightarrow> nat \<Rightarrow> pystr"

definition py_upper :: "ucd \<Rightarrow> pystr \<Rightarrow> pystr" where
  "py_upper U s = concat (map (upper_cp U) s)"

definition py_lower :: "ucd \<Rightarrow> pystr \<Rightarrow> pystr" where
  "py_lower U s = concat (map (lower_at U s) [0..<length s])"

definition py_strip :: "ucd \<Rightarrow> pystr \<Rightarrow> pystr" where
  "py_strip U s = rev (dropWhile (isspace U) (rev (dropWhile (isspace U) s)))"

text \<open>\<open>sub in s\<close> and \<open>s.endswith(suf)\<close> on strings.\<close>

fun py_in :: "pystr \<Rightarrow> pystr \<Rightarrow> bool" where
  "py_in sub [] = (sub = [])"
| "py_in sub (c # cs) = (prefix sub (c # cs) \<or> py_in sub cs)"

definition endswith :: "pystr \<Rightarrow> pystr \<Rightarrow> bool" where
  "endswith s suf = suffix suf s"

datatype pyerr = TypeError | ZeroDivisionError | ValueError | IndexError | OtherError

text \<open>\<open>ord\<close> raises \<open>TypeError\<close> unless its argument has exactly one character.\<close>

fun py_ord :: "pystr \<Rightarrow> pyerr + int" where
  "py_ord [c] = Inr (int c)"
| "py_ord _ = Inl TypeError"

text \<open>
  \<open>chr\<close> is only ever applied to \<open>x mod 26 + 65\<close>, a number between 65 and 90, where
  it is defined and returns the character with that code point.
\<close>

definition py_chr :: "int \<Rightarrow> codepoint" where
  "py_chr n = nat n"

subsection \<open>The database on U+0000 to U+00FF\<close>

text \<open>
  The entries of the database for the code points below 256, used to evaluate the
  functions on concrete strings of that range. Three of them have an upper-case mapping
  outside the range: U+00B5 (to U+039C), U+00DF (to \<open>SS\<close>) and U+00FF (to U+0178).
  Code points from 256 on are outside this table; the table must not be consulted
  there.
\<close>

definition latin1_isalpha :: "codepoint \<Rightarrow> bool" where
  "latin1_isalpha c =
     ((65 \<le> c \<and> c \<le> 90) \<or> (97 \<le> c \<and> c \<le> 122) \<or> c = 170 \<or> c = 181 \<or> c = 186 \<or>
      (192 \<le> c \<and> c \<le> 214) \<or> (216 \<le> c \<and> c \<le> 246) \<or> (248 \<le> c \<and> c \<le> 255))"

definition latin1_isspace :: "codepoint \<Rightarrow> bool" where
  "latin1_isspace c = ((9 \<le> c \<and> c \<le> 13) \<or> (28 \<le> c \<and> c \<le> 32) \<or> c = 133 \<or> c = 160)"

definition latin1_upper :: "codepoint \<Rightarrow> pystr" where
  "latin1_upper c =
     (if 97 \<le> c \<and> c \<le> 122 then [c - 32]
      else if c = 181 then [924]
      else if c = 223 then [83, 83]
      else if (224 \<le> c \<and> c \<le> 246) \<or> (248 \<le> c \<and> c \<le> 254) then [c - 32]
      else if c = 255 then [376]
      else [c])"

definition latin1_lower :: "codepoint \<Rightarrow> pystr" where
  "latin1_lower c =
     (if (65 \<le> c \<and> c \<le> 90) \<or> (192 \<le> c \<and> c \<le> 214) \<or> (216 \<le> c \<and> c \<le> 222)
      then [c + 32] else [c])"

definition latin1 :: ucd where
  "latin1 = \<lparr> isalpha = latin1_isalpha, isspace = latin1_isspace,
              upper_cp = latin1_upper, lower_at = (\<lambda>s i. latin1_lower (s ! i)) \<rparr>"

section \<open>The decryption pipeline\<close>

text \<open>
  The first loop of \<open>advanced_vigenere_decrypt\<close>: the Caesar stage. \<open>caesar_decrypted\<close>
  is the string built so far.
\<close>

fun caesar_loop :: "ucd \<Rightarrow> int \<Rightarrow> pystr \<Rightarrow> pystr \<Rightarrow> pyerr + pystr" where
  "caesar_loop U caesar_shift caesar_decrypted [] = Inr caesar_decrypted"
| "caesar_loop U caesar_shift caesar_decrypted (ch # rest) =
     (if isalpha U ch then
        (case py_ord (upper_cp U ch) of
           Inl e \<Rightarrow> Inl e
         | Inr oc \<Rightarrow>
             (let shifted = (oc - 65 - caesar_shift) mod 26
              in caesar_loop U caesar_shift (caesar_decrypted @ [py_chr (shifted + 65)]) rest))
      else caesar_loop U caesar_shift (caesar_decrypted @ [ch]) rest)"

definition caesar_stage :: "ucd \<Rightarrow> int \<Rightarrow> pystr \<Rightarrow> pyerr + pystr" where
  "caesar_stage U caesar_shift ciphertext = caesar_loop U caesar_shift [] ciphertext"

text \<open>
  The second loop: the Vigen\`ere stage, over the output of the first. \<open>key\<close> is the
  upper-cased key. \<open>key_index % len(key)\<close> raises \<open>ZeroDivisionError\<close> on an empty key.
\<close>

fun vigenere_loop :: "ucd \<Rightarrow> pystr \<Rightarrow> pystr \<Rightarrow> nat \<Rightarrow> pystr \<Rightarrow> pyerr + pystr" where
  "vigenere_loop U key plaintext key_index [] = Inr plaintext"
| "vigenere_loop U key plaintext key_index (ch # rest) =
     (if isalpha U ch then
        (case py_ord (upper_cp U ch) of
           Inl e \<Rightarrow> Inl e
         | Inr oc \<Rightarrow>
             (let c = oc - 65 in
              if length key = 0 then Inl ZeroDivisionError
              else
                (let k = int (key ! (key_index mod length key)) - 65;
                     p = (c - k) mod 26
                 in vigenere_loop U key (plaintext @ [py_chr (p + 65)]) (key_index + 1) rest)))
      else vigenere_loop U key (plaintext @ [ch]) key_index rest)"

definition vigenere_stage :: "ucd \<Rightarrow> pystr \<Rightarrow> pystr \<Rightarrow> pyerr + pystr" where
  "vigenere_stage U key caesar_decrypted =
     vigenere_loop U (py_upper U key) [] 0 caesar_decrypted"

definition advanced_vigenere_decrypt :: "ucd \<Rightarrow> pystr \<Rightarrow> pystr \<Rightarrow> int \<Rightarrow> pyerr + pystr" where
  "advanced_vigenere_decrypt U ciphertext key caesar_shift =
     (if ciphertext = [] \<or> key = [] then Inr []
      else
        (case caesar_stage U caesar_shift ciphertext of
           Inl e \<Rightarrow> Inl e
         | Inr caesar_decrypted \<Rightarrow> vigenere_stage U key caesar_decrypted))"

subsection \<open>The reference encryption\<close>

text \<open>
  Modelled from the spec: the encryption, which the repository does not have (it only
  decrypts). The two encryption stages below are the reference inverses the round-trip
  property of the specification speaks of: the
  Vigen\`ere encryption adds the key letter where the decryption subtracts it, the Caesar
  encryption shifts forward where the decryption shifts backward, and the text is
  encrypted with the Vigen\`ere cipher first and the Caesar cipher second. Everything
  else (the test for letters, the upper-casing, the key index) is as in the decryption.
\<close>

fun reference_vigenere_encrypt_loop ::
  "ucd \<Rightarrow> pystr \<Rightarrow> pystr \<Rightarrow> nat \<Rightarrow> pystr \<Rightarrow> pyerr + pystr" where
  "reference_vigenere_encrypt_loop U key out key_index [] = Inr out"
| "reference_vigenere_encrypt_loop U key out key_index (ch # rest) =
     (if isalpha U ch then
        (case py_ord (upper_cp U ch) of
           Inl e \<Rightarrow> Inl e
         | Inr oc \<Rightarrow>
             (let p = oc - 65 in
              if length key = 0 then Inl ZeroDivisionError
              else
                (let k = int (key ! (key_index mod length key)) - 65;
                     c = (p + k) mod 26
                 in reference_vigenere_encrypt_loop U key (out @ [py_chr (c + 65)])
                      (key_index + 1) rest)))
      else reference_vigenere_encrypt_loop U key (out @ [ch]) key_index rest)"

definition reference_vigenere_encrypt :: "ucd \<Rightarrow> pystr \<Rightarrow> pystr \<Rightarrow> pyerr + pystr" where
  "reference_vigenere_encrypt U key text =
     reference_vigenere_encrypt_loop U (py_upper U key) [] 0 text"

fun reference_caesar_encrypt_loop :: "ucd \<Rightarrow> int \<Rightarrow> pystr \<Rightarrow> pystr \<Rightarrow> pyerr + pystr" where
  "reference_caesar_encrypt_loop U caesar_shift out [] = Inr out"
| "reference_caesar_encrypt_loop U caesar_shift out (ch # rest) =
     (if isalpha U ch then
        (case py_ord (upper_cp U ch) of
           Inl e \<Rightarrow> Inl e
         | Inr oc \<Rightarrow>
             (let shifted = (oc - 65 + caesar_shift) mod 26
              in reference_caesar_encrypt_loop U caesar_shift (out @ [py_chr (shifted + 65)]) rest))
      else reference_caesar_encrypt_loop U caesar_shift (out @ [ch]) rest)"

definition reference_caesar_encrypt :: "ucd \<Rightarrow> int \<Rightarrow> pystr \<Rightarrow> pyerr + pystr" where
  "reference_caesar_encrypt U caesar_shift text = reference_caesar_encrypt_loop U caesar_shift [] text"

definition reference_encrypt :: "ucd \<Rightarrow> pystr \<Rightarrow> pystr \<Rightarrow> int \<Rightarrow> pyerr + pystr" where
  "reference_encrypt U text key caesar_shift =
     (case reference_vigenere_encrypt U key text of
        Inl e \<Rightarrow> Inl e
      | Inr v \<Rightarrow> reference_caesar_encrypt U caesar_shift v)"

text \<open>
  The letters of the 26-letter alphabet, and what the database says about them in every
  version of Unicode: they are alphabetic, and the upper-case mapping of each is the one
  capital letter.
\<close>

definition ascii_letter :: "codepoint \<Rightarrow> bool" where
  "ascii_letter c = ((65 \<le> c \<and> c \<le> 90) \<or> (97 \<le> c \<and> c \<le> 122))"

definition ascii_upper :: "codepoint \<Rightarrow> codepoint" where
  "ascii_upper c = (if 97 \<le> c \<and> c \<le> 122 then c - 32 else c)"

definition ascii_lower :: "codepoint \<Rightarrow> codepoint" where
  "ascii_lower c = (if 65 \<le> c \<and> c \<le> 90 then c + 32 else c)"

definition ascii_conformant :: "ucd \<Rightarrow> bool" where
  "ascii_conformant U =
     ((\<forall>c. ascii_letter c \<longrightarrow> isalpha U c \<and> upper_cp U c = [ascii_upper c]) \<and>
      (\<forall>s i. i < length s \<and> s ! i < 128 \<longrightarrow> lower_at U s i = [ascii_lower (s ! i)]))"

text \<open>
  On a string of letters of the 26-letter alphabet each stage is a rotation of the
  alphabet: \<open>rot n c\<close> is the capital letter \<open>n\<close> places after the capital of \<open>c\<close>, and
  \<open>rot_by_key sg key key_index s\<close> rotates the letters of \<open>s\<close> by \<open>sg\<close> times the key
  letters, starting at \<open>key_index\<close>. They describe what the loops compute on such strings.
\<close>

definition rot :: "int \<Rightarrow> codepoint \<Rightarrow> codepoint" where
  "rot n c = py_chr ((int (ascii_upper c) - 65 + n) mod 26 + 65)"

fun rot_by_key :: "int \<Rightarrow> pystr \<Rightarrow> nat \<Rightarrow> pystr \<Rightarrow> pystr" where
  "rot_by_key sg key key_index [] = []"
| "rot_by_key sg key key_index (c # cs) =
     rot (sg * (int (key ! (key_index mod length key)) - 65)) c #
     rot_by_key sg key (key_index + 1) cs"

section \<open>The solution scorer\<close>

definition success_indicators :: "pystr list" where
  "success_indicators = map str
     [''FLAG{'', ''CTF{'', ''ETERNA'', ''GHOST'', ''GIRATINA'',
      ''DISTORTION'', ''WORLD'', ''PLATINUM'', ''SINNOH'']"

definition pokemon_names :: "pystr list" where
  "pokemon_names = map str
     [''GIRATINA'', ''DIALGA'', ''PALKIA'', ''ARCEUS'', ''DARKRAI'',
      ''CRESSELIA'', ''ROTOM'', ''SPIRITOMB'']"

definition solution_score :: "ucd \<Rightarrow> pystr \<Rightarrow> pystr \<Rightarrow> int" where
  "solution_score U decrypted_text pokemon_key =
     (let score = 0;
          score = (if list_ex (\<lambda>indicator. py_in indicator (py_upper U decrypted_text))
                        success_indicators
                   then score + 10 else score);
          score = (if py_upper U pokemon_key \<in> set pokemon_names
                   then score + 5 else score)
      in score)"

definition check_solution_complexity :: "ucd \<Rightarrow> pystr \<Rightarrow> pystr \<Rightarrow> bool" where
  "check_solution_complexity U decrypted_text pokemon_key =
     (solution_score U decrypted_text pokemon_key \<ge> 15)"

section \<open>The request handlers\<close>

text \<open>
  A handler answers with status 200 and a JSON body, with status 400 and an error
  message, or with status 500 when an exception leaves the handler (or, in the upload
  handler, is caught by its \<open>except\<close> clause).
\<close>

datatype 'a response = Ok200 'a | Err400 pystr | Err500 pyerr

subsection \<open>POST /decrypt\<close>

text \<open>
  The JSON body of the request, with the fields of the types the interface documents:
  two strings and an integer, each of which may be absent (\<open>None\<close>), in which case
  \<open>data.get\<close> supplies its default. \<open>caesar_shift\<close> is the value \<open>int(...)\<close> returns.
\<close>

record decrypt_request =
  req_cipher_type :: "pystr option"
  req_cipher_text :: "pystr option"
  req_key :: "pystr option"
  req_caesar_shift :: "int option"

record decrypt_body =
  success :: bool
  decrypted_message :: pystr
  congratulations :: bool
  complexity_score :: pystr
  hint :: pystr

definition decrypt_cipher :: "ucd \<Rightarrow> decrypt_request \<Rightarrow> decrypt_body response" where
  "decrypt_cipher U data =
     (let cipher_type = (case req_cipher_type data of None \<Rightarrow> str ''primary'' | Some t \<Rightarrow> t);
          cipher_text = (case req_cipher_text data of None \<Rightarrow> [] | Some t \<Rightarrow> t);
          key = py_upper U (py_strip U (case req_key data of None \<Rightarrow> [] | Some k \<Rightarrow> k));
          caesar_shift = (case req_caesar_shift data of None \<Rightarrow> 3 | Some n \<Rightarrow> n)
      in if cipher_text = [] \<or> key = [] then Err400 (str ''Missing cipher text or key'')
         else
           (case advanced_vigenere_decrypt U cipher_text key caesar_shift of
              Inl e \<Rightarrow> Err500 e
            | Inr decrypted \<Rightarrow>
                (let verdict = check_solution_complexity U decrypted key
                 in Ok200 \<lparr> success = True,
                             decrypted_message = decrypted,
                             congratulations = verdict,
                             complexity_score = (if verdict then str ''High'' else str ''Partial''),
                             hint = (if \<not> verdict
                                     then str ''Try different cipher types and Caesar shifts if unsuccessful.''
                                     else []) \<rparr>)))"

subsection \<open>POST /upload\<close>

text \<open>
  The request either has no part named \<open>audiofile\<close> or has one, with a file name and a
  content. \<open>process\<close> is the body of the \<open>try\<close> block, which stores, decodes and
  analyses the content: it returns the JSON body of the answer or raises.
\<close>

definition upload_file ::
  "ucd \<Rightarrow> ('c \<Rightarrow> pyerr + 'b) \<Rightarrow> (pystr \<times> 'c) option \<Rightarrow> 'b response" where
  "upload_file U process audiofile =
     (case audiofile of
        None \<Rightarrow> Err400 (str ''No file uploaded'')
      | Some (filename, content) \<Rightarrow>
          if filename = [] then Err400 (str ''No file selected'')
          else if \<not> endswith (py_lower U filename) (str ''.wav'')
          then Err400 (str ''Only WAV files are accepted'')
          else (case process content of Inl e \<Rightarrow> Err500 e | Inr payload \<Rightarrow> Ok200 payload))"

section \<open>The cipher bundle\<close>

text \<open>
  \<open>datetime.now()\<close> reads the wall clock; the reading is an argument of the model. Only
  the fields of the time of day are kept.
\<close>

record datetime =
  hour :: nat
  minute :: nat
  second :: nat

text \<open>The decimal digits of a number, and the format \<open>:02d\<close> of a number that is not negative.\<close>

fun decimal :: "nat \<Rightarrow> pystr" where
  "decimal n = (if n < 10 then [48 + n] else decimal (n div 10) @ [48 + n mod 10])"

declare decimal.simps [simp del]

definition format_02d :: "nat \<Rightarrow> pystr" where
  "format_02d n = (let d = decimal n in replicate (2 - length d) 48 @ d)"

record ciphers =
  primary :: pystr
  secondary :: pystr
  tertiary :: pystr
  quaternary :: pystr

text \<open>
  The tags of the file as the metadata reader returns them: a list of frames by name,
  each with its list of texts. \<open>audio.tags[key][0]\<close> raises on a frame without text.
\<close>

type_synonym tags = "(string \<times> pystr list) list"

fun cipher_from_tags :: "tags \<Rightarrow> pystr \<Rightarrow> string list \<Rightarrow> pyerr + pystr" where
  "cipher_from_tags tgs cipher_from_metadata [] = Inr cipher_from_metadata"
| "cipher_from_tags tgs cipher_from_metadata (k # ks) =
     (case map_of tgs k of
        None \<Rightarrow> cipher_from_tags tgs cipher_from_metadata ks
      | Some [] \<Rightarrow> Inl IndexError
      | Some (t # ts) \<Rightarrow> cipher_from_tags tgs (cipher_from_metadata @ t) ks)"

text \<open>
  \<open>audio\<close> is what opening the file as a tagged container gives: an exception, no tags
  at all, or the tags. An exception anywhere in the \<open>try\<close> block leaves the defaults.
\<close>

definition extract_complex_metadata :: "datetime \<Rightarrow> pyerr + tags option \<Rightarrow> ciphers" where
  "extract_complex_metadata now audio =
     (let cs = \<lparr> primary = str ''NKOOR_IURP_JLUDWLQD_UHDOP'',
                  secondary = str ''FDHVDU_FLSKHU_ZLWK_NHBZRUG'',
                  tertiary = str ''WLPH_EDVHG_HQFULSWLRQ'',
                  quaternary = str ''WLPH_VKLIW_'' @ format_02d (hour now mod 13) \<rparr>
      in case audio of
           Inl e \<Rightarrow> cs
         | Inr None \<Rightarrow> cs
         | Inr (Some tgs) \<Rightarrow>
             if tgs = [] then cs
             else
               (case cipher_from_tags tgs [] [''TIT2'', ''TALB'', ''TPE1'', ''TCON''] of
                  Inl e \<Rightarrow> cs
                | Inr cipher_from_metadata \<Rightarrow>
                    if cipher_from_metadata \<noteq> [] then cs\<lparr>tertiary := cipher_from_metadata\<rparr>
                    else cs))"

section \<open>The bit-plane extractor\<close>

text \<open>
  The samples are signed 16-bit integers (\<open>np.int16\<close>), read by \<open>sint\<close>. The decoded
  array is one-dimensional for a mono file and has one row of channel values per frame
  otherwise. \<open>np.mean(data, axis=1).astype(np.int16)\<close> averages a row in floating point
  and truncates the average towards zero; a row of int16 values sums exactly, and its
  average is within the 16-bit range. (No decoder returns a row without channels;
  \<open>sdiv\<close> gives 0 for it.)
\<close>

type_synonym int16 = "16 word"

datatype audio_data = Mono "int16 list" | Multi "int16 list list"

definition mean_int16 :: "int16 list \<Rightarrow> int16" where
  "mean_int16 row = word_of_int ((\<Sum>x\<leftarrow>row. sint x) sdiv int (length row))"

definition to_mono :: "audio_data \<Rightarrow> int16 list" where
  "to_mono data = (case data of Mono xs \<Rightarrow> xs | Multi rows \<Rightarrow> map mean_int16 rows)"

text \<open>
  One pass of the loop body over the array: \<open>>>\<close> on int16 is the arithmetic shift,
  \<open>16383 >> bit_pos\<close> is computed on Python integers, and the products are int16
  products, which wrap around. Bit positions are natural numbers.
\<close>

definition hidden_audio :: "nat \<Rightarrow> int16 \<Rightarrow> int16" where
  "hidden_audio bit_pos x =
     (let lsb_data = signed_drop_bit bit_pos x AND 1
      in (lsb_data * 2 - 1) * word_of_int (drop_bit bit_pos 16383))"

fun layers_loop :: "int16 list \<Rightarrow> (nat \<rightharpoonup> int16 list) \<Rightarrow> nat list \<Rightarrow> (nat \<rightharpoonup> int16 list)" where
  "layers_loop data layers [] = layers"
| "layers_loop data layers (bit_pos # rest) =
     layers_loop data (layers(bit_pos \<mapsto> map (hidden_audio bit_pos) data)) rest"

text \<open>The dictionary key \<open>layer_<bit_pos>\<close> is represented by \<open>bit_pos\<close>.\<close>

definition extract_multi_lsb_audio :: "audio_data \<Rightarrow> nat list \<Rightarrow> (nat \<rightharpoonup> int16 list)" where
  "extract_multi_lsb_audio data bit_positions = layers_loop (to_mono data) Map.empty bit_positions"

section \<open>The frequency fingerprint\<close>

text \<open>
  A finite float64 value is a rational number. Each floating-point operation returns the
  exact result rounded to a float64 value; the rounding \<open>fl\<close> is a parameter of the model.
  \<open>float64_round\<close> is rounding to the nearest value with a 53-bit significand, ties to
  even, as the hardware does it for results in the normal range.
\<close>

definition ilog2 :: "rat \<Rightarrow> int" where
  "ilog2 a = (let (n, d) = quotient_of a; k = bitlen n - bitlen d
              in if of_int d * power_int (2::rat) k \<le> of_int n then k else k - 1)"

definition round_half_even :: "rat \<Rightarrow> int" where
  "round_half_even m =
     (let f = \<lfloor>m\<rfloor>; r = m - of_int f
      in if r < 1/2 then f else if 1/2 < r then f + 1 else if even f then f else f + 1)"

definition float64_round :: "rat \<Rightarrow> rat" where
  "float64_round x =
     (if x = 0 then 0
      else (let e = ilog2 \<bar>x\<bar>; u = power_int (2::rat) (e - 52)
            in of_int (round_half_even (x / u)) * u))"

text \<open>\<open>int(x)\<close> of a finite float: truncation towards zero.\<close>

definition py_int :: "rat \<Rightarrow> int" where
  "py_int x = (if 0 \<le> x then \<lfloor>x\<rfloor> else \<lceil>x\<rceil>)"

text \<open>\<open>np.argmin\<close>: the index of the first smallest element; it raises on an empty array.\<close>

fun argmin_scan :: "rat list \<Rightarrow> nat \<Rightarrow> nat \<Rightarrow> rat \<Rightarrow> nat" where
  "argmin_scan [] i best_idx best = best_idx"
| "argmin_scan (x # xs) i best_idx best =
     (if x < best then argmin_scan xs (i + 1) i x else argmin_scan xs (i + 1) best_idx best)"

fun np_argmin :: "rat list \<Rightarrow> pyerr + nat" where
  "np_argmin [] = Inl ValueError"
| "np_argmin (x # xs) = Inr (argmin_scan xs 1 0 x)"

text \<open>\<open>np.abs(freq_bins - freq)\<close>: the subtraction is one floating-point operation per bin.\<close>

definition np_abs_sub :: "(rat \<Rightarrow> rat) \<Rightarrow> rat list \<Rightarrow> int \<Rightarrow> rat list" where
  "np_abs_sub fl freq_bins freq = map (\<lambda>b. \<bar>fl (b - of_int freq)\<bar>) freq_bins"

text \<open>Index \<open>i\<close> holds a smallest element of \<open>xs\<close>, and no earlier index does.\<close>

definition first_min :: "rat list \<Rightarrow> nat \<Rightarrow> bool" where
  "first_min xs i =
     (i < length xs \<and> (\<forall>j < length xs. xs ! i \<le> xs ! j) \<and> (\<forall>j < i. xs ! i < xs ! j))"

definition target_freqs :: "int list" where
  "target_freqs = [440, 880, 1320, 1760]"

text \<open>
  The loop over the target frequencies. \<open>phase\<close> and \<open>freq_bins\<close> are the arrays
  \<open>np.angle(fft(data))\<close> and \<open>np.fft.fftfreq(len(data), 1/sample_rate)\<close>. An entry of
  \<open>phase\<close> is \<open>None\<close> where \<open>int\<close> raises on it: a NaN, or a row of several channels
  when \<open>data\<close> is two-dimensional.
\<close>

fun hidden_data_loop ::
  "(rat \<Rightarrow> rat) \<Rightarrow> rat option list \<Rightarrow> rat list \<Rightarrow> int list \<Rightarrow> int list \<Rightarrow> pyerr + int list" where
  "hidden_data_loop fl phase freq_bins hidden_data [] = Inr hidden_data"
| "hidden_data_loop fl phase freq_bins hidden_data (freq # rest) =
     (case np_argmin (np_abs_sub fl freq_bins freq) of
        Inl e \<Rightarrow> Inl e
      | Inr bin_idx \<Rightarrow>
          if bin_idx < length phase then
            (case phase ! bin_idx of
               None \<Rightarrow> Inl ValueError
             | Some p \<Rightarrow>
                 (let phase_int = py_int (fl (p * 1000)) mod 2
                  in hidden_data_loop fl phase freq_bins (hidden_data @ [phase_int]) rest))
          else hidden_data_loop fl phase freq_bins hidden_data rest)"

text \<open>
  \<open>spectrum\<close> is the outcome of the three library calls at the head of the \<open>try\<close> block:
  an exception (an empty signal, a sample rate of 0) or the two arrays.
\<close>

definition extract_frequency_domain_data ::
  "(rat \<Rightarrow> rat) \<Rightarrow> pyerr + (rat option list \<times> rat list) \<Rightarrow> int list" where
  "extract_frequency_domain_data fl spectrum =
     (case spectrum of
        Inl e \<Rightarrow> [0, 1, 0, 1]
      | Inr (phase, freq_bins) \<Rightarrow>
          (case hidden_data_loop fl phase freq_bins [] target_freqs of
             Inl e \<Rightarrow> [0, 1, 0, 1]
           | Inr hidden_data \<Rightarrow> hidden_data))"

section \<open>Properties of the decryption pipeline\<close>

lemma caesar_loop_shift_26:
  "caesar_loop U (s + 26) acc xs = caesar_loop U s acc xs"
proof (induction xs arbitrary: acc)
  case Nil
  show ?case by simp
next
  case (Cons ch rest)
  have m: "\<And>oc. (oc - 65 - (s + 26)) mod 26 = (oc - 65 - s) mod 26"
  proof -
    fix oc :: int
    have "oc - 65 - (s + 26) = (oc - 65 - s) - 1 * 26" by simp
    then show "(oc - 65 - (s + 26)) mod 26 = (oc - 65 - s) mod 26"
      by (metis mod_mult_self1 diff_conv_add_uminus mult_minus_left)
  qed
  show ?case
    by (simp only: caesar_loop.simps m Cons.IH)
qed

text \<open>
  C8. The Caesar shift only matters modulo 26: for every ciphertext, key and integer
  shift \<open>s\<close> (negative ones too), decrypting with \<open>s + 26\<close> gives what decrypting with
  \<open>s\<close> gives, be it a string or an exception.
\<close>

theorem caesar_shift_mod_26:
  "advanced_vigenere_decrypt U ciphertext key (s + 26) = advanced_vigenere_decrypt U ciphertext key s"
  by (simp add: advanced_vigenere_decrypt_def caesar_stage_def caesar_loop_shift_26)

theorem caesar_shift_mod_26_witness:
  "advanced_vigenere_decrypt latin1 (str ''PSIVP'') (str ''GIRATINA'') (- 23) = Inr (str ''GHOST'') \<and>
   advanced_vigenere_decrypt latin1 (str ''PSIVP'') (str ''GIRATINA'') 3 = Inr (str ''GHOST'')"
proof -
  have "advanced_vigenere_decrypt latin1 (str ''PSIVP'') (str ''GIRATINA'') 3 = Inr (str ''GHOST'')"
    by code_simp
  with caesar_shift_mod_26 [of latin1 "str ''PSIVP''" "str ''GIRATINA''" "- 23"] show ?thesis
    by simp
qed

section \<open>Properties of the solution scorer\<close>

lemma py_in_sublist: "py_in sub s \<longleftrightarrow> sublist sub s"
  by (induction s) (auto simp: sublist_Cons_right)

text \<open>
  C1. The score is 10 for a success substring in the upper-cased text plus 5 for an
  upper-cased key in the list of allowed keys, and the verdict (score at least 15) holds
  exactly when both conditions hold; neither alone is enough.
\<close>

theorem scorer_needs_both:
  "solution_score U decrypted_text pokemon_key =
     (if \<exists>indicator \<in> set success_indicators. sublist indicator (py_upper U decrypted_text)
      then 10 else 0) +
     (if py_upper U pokemon_key \<in> set pokemon_names then 5 else 0) \<and>
   (check_solution_complexity U decrypted_text pokemon_key \<longleftrightarrow>
      (\<exists>indicator \<in> set success_indicators. sublist indicator (py_upper U decrypted_text)) \<and>
      py_upper U pokemon_key \<in> set pokemon_names)"
  by (simp add: check_solution_complexity_def solution_score_def list_ex_iff py_in_sublist)

theorem scorer_needs_both_witness:
  "check_solution_complexity latin1 (str ''the Giratina realm'') (str ''Giratina'') \<and>
   \<not> check_solution_complexity latin1 (str ''the Giratina realm'') (str ''Pikachu'') \<and>
   \<not> check_solution_complexity latin1 (str ''nothing here'') (str ''Arceus'')"
proof -
  have a1: "\<exists>indicator \<in> set success_indicators.
              sublist indicator (py_upper latin1 (str ''the Giratina realm''))"
    unfolding py_in_sublist [symmetric] list_ex_iff [symmetric] by code_simp
  have a2: "py_upper latin1 (str ''Giratina'') \<in> set pokemon_names"
    by code_simp
  have b2: "py_upper latin1 (str ''Pikachu'') \<notin> set pokemon_names"
    by code_simp
  have c1: "\<not> (\<exists>indicator \<in> set success_indicators.
              sublist indicator (py_upper latin1 (str ''nothing here'')))"
    unfolding py_in_sublist [symmetric] list_ex_iff [symmetric] by code_simp
  show ?thesis
    using scorer_needs_both [of latin1 "str ''the Giratina realm''" "str ''Giratina''"]
      scorer_needs_both [of latin1 "str ''the Giratina realm''" "str ''Pikachu''"]
      scorer_needs_both [of latin1 "str ''nothing here''" "str ''Arceus''"]
      a1 a2 b2 c1
    by blast
qed

section \<open>Properties of the request handlers\<close>

lemma high_not_partial: "str ''High'' \<noteq> str ''Partial''"
  by (simp add: str_def)

lemma hint_not_empty:
  "str ''Try different cipher types and Caesar shifts if unsuccessful.'' \<noteq> []"
  by (simp add: str_def)

text \<open>
  C10. In every 200 answer of POST /decrypt the field \<open>success\<close> is true, whatever the
  verdict of the solution check. The verdict is the field \<open>congratulations\<close>;
  \<open>complexity_score\<close> is \<open>High\<close> exactly when the verdict is true and \<open>Partial\<close> otherwise,
  and \<open>hint\<close> is non-empty exactly when the verdict is false.
\<close>

theorem decrypt_200_fields:
  assumes "decrypt_cipher U data = Ok200 b"
  shows "success b = True \<and>
         congratulations b =
           check_solution_complexity U (decrypted_message b)
             (py_upper U (py_strip U (case req_key data of None \<Rightarrow> [] | Some k \<Rightarrow> k))) \<and>
         (complexity_score b = str ''High'' \<longleftrightarrow> congratulations b) \<and>
         (complexity_score b = str ''Partial'' \<longleftrightarrow> \<not> congratulations b) \<and>
         (hint b \<noteq> [] \<longleftrightarrow> \<not> congratulations b)"
  using assms high_not_partial hint_not_empty
  by (auto simp: decrypt_cipher_def Let_def split: if_splits sum.splits)

theorem decrypt_200_fields_witness:
  "decrypt_cipher latin1
     \<lparr> req_cipher_type = None, req_cipher_text = Some (str ''PSIVP''),
       req_key = Some (str '' giratina ''), req_caesar_shift = None \<rparr> =
   Ok200 \<lparr> success = True, decrypted_message = str ''GHOST'', congratulations = True,
           complexity_score = str ''High'', hint = [] \<rparr> \<and>
   decrypt_cipher latin1
     \<lparr> req_cipher_type = None, req_cipher_text = Some (str ''PSIVP''),
       req_key = Some (str ''pikachu''), req_caesar_shift = Some 5 \<rparr> =
   Ok200 \<lparr> success = True, decrypted_message = str ''VFTQI'', congratulations = False,
           complexity_score = str ''Partial'',
           hint = str ''Try different cipher types and Caesar shifts if unsuccessful.'' \<rparr> \<and>
   check_solution_complexity latin1 (str ''GHOST'') (str ''GIRATINA'') \<and>
   \<not> check_solution_complexity latin1 (str ''VFTQI'') (str ''PIKACHU'')"
proof -
  have e1: "decrypt_cipher latin1
     \<lparr> req_cipher_type = None, req_cipher_text = Some (str ''PSIVP''),
       req_key = Some (str '' giratina ''), req_caesar_shift = None \<rparr> =
   Ok200 \<lparr> success = True, decrypted_message = str ''GHOST'', congratulations = True,
           complexity_score = str ''High'', hint = [] \<rparr>"
    by code_simp
  have e2: "decrypt_cipher latin1
     \<lparr> req_cipher_type = None, req_cipher_text = Some (str ''PSIVP''),
       req_key = Some (str ''pikachu''), req_caesar_shift = Some 5 \<rparr> =
   Ok200 \<lparr> success = True, decrypted_message = str ''VFTQI'', congratulations = False,
           complexity_score = str ''Partial'',
           hint = str ''Try different cipher types and Caesar shifts if unsuccessful.'' \<rparr>"
    by code_simp
  have k1: "py_upper latin1 (py_strip latin1 (str '' giratina '')) = str ''GIRATINA''"
    and k2: "py_upper latin1 (py_strip latin1 (str ''pikachu'')) = str ''PIKACHU''"
    by code_simp+
  show ?thesis
    using decrypt_200_fields [OF e1] decrypt_200_fields [OF e2] e1 e2 k1 k2
    by simp
qed

lemma py_lower_append_ascii:
  assumes U: "ascii_conformant U" and suf: "\<forall>c \<in> set suf. c < 128"
  shows "\<exists>p. py_lower U (pre @ suf) = p @ map ascii_lower suf"
proof -
  define s where "s = pre @ suf"
  define m where "m = length pre"
  define n where "n = length suf"
  have len: "length s = m + n"
    by (simp add: s_def m_def n_def)
  have split: "[0..<m + n] = [0..<m] @ [m..<m + n]"
    by (rule upt_add_eq_append) simp
  have at: "lower_at U s i = [ascii_lower (suf ! (i - m))]" if "m \<le> i" "i < m + n" for i
  proof -
    have eq: "s ! i = suf ! (i - m)"
      using that by (simp add: s_def m_def nth_append)
    have "suf ! (i - m) \<in> set suf"
      using that by (simp add: n_def)
    then have "s ! i < 128"
      using suf eq by simp
    moreover have "i < length s"
      using that len by simp
    ultimately have "lower_at U s i = [ascii_lower (s ! i)]"
      using U by (simp add: ascii_conformant_def)
    then show ?thesis
      by (simp add: eq)
  qed
  have "map (lower_at U s) [m..<m + n] = map (\<lambda>i. [ascii_lower (suf ! (i - m))]) [m..<m + n]"
    by (rule map_cong [OF refl]) (simp add: at)
  then have "concat (map (lower_at U s) [m..<m + n]) =
             map (\<lambda>i. ascii_lower (suf ! (i - m))) [m..<m + n]"
    by (simp only: concat_map_singleton)
  also have "\<dots> = map ascii_lower suf"
    by (rule nth_equalityI) (simp_all add: n_def)
  finally have tail: "concat (map (lower_at U s) [m..<m + n]) = map ascii_lower suf" .
  have "py_lower U s =
        concat (map (lower_at U s) [0..<m]) @ concat (map (lower_at U s) [m..<m + n])"
    unfolding py_lower_def len split by (simp only: map_append concat_append)
  then show ?thesis
    unfolding s_def [symmetric] tail by blast
qed

lemma endswith_lower_ascii:
  assumes U: "ascii_conformant U" and suf: "\<forall>c \<in> set suf. c < 128"
    and e: "endswith filename suf"
  shows "endswith (py_lower U filename) (map ascii_lower suf)"
proof -
  from e obtain pre where "filename = pre @ suf"
    by (auto simp: endswith_def suffix_def)
  with py_lower_append_ascii [OF U suf, of pre] show ?thesis
    by (auto simp: endswith_def suffix_def)
qed

lemma wav_cases:
  "map ascii_lower (str ''.WAV'') = str ''.wav''"
  "map ascii_lower (str ''.Wav'') = str ''.wav''"
  "\<forall>c \<in> set (str ''.WAV''). c < 128"
  "\<forall>c \<in> set (str ''.Wav''). c < 128"
  by (simp_all add: str_def ascii_lower_def)

lemma latin1_ascii_conformant: "ascii_conformant latin1"
  unfolding ascii_conformant_def
proof (intro conjI allI impI)
  fix c assume "ascii_letter c"
  then show "isalpha latin1 c"
    by (auto simp: latin1_def latin1_isalpha_def ascii_letter_def)
next
  fix c assume "ascii_letter c"
  then show "upper_cp latin1 c = [ascii_upper c]"
    by (auto simp: latin1_def latin1_upper_def ascii_letter_def ascii_upper_def)
next
  fix s :: pystr and i assume "i < length s \<and> s ! i < 128"
  then show "lower_at latin1 s i = [ascii_lower (s ! i)]"
    by (auto simp: latin1_def latin1_lower_def ascii_lower_def)
qed

text \<open>
  C9. The extension check of POST /upload is case-insensitive: a request with a
  non-empty file name is answered with status 400 and the error
  \<open>Only WAV files are accepted\<close> exactly when the lower-cased file name does not end in
  \<open>.wav\<close>. In particular a file name that ends in \<open>.WAV\<close> or \<open>.Wav\<close> passes the check
  and is processed.
\<close>

theorem upload_extension_check:
  "filename \<noteq> [] \<Longrightarrow>
     (upload_file U process (Some (filename, content)) =
        Err400 (str ''Only WAV files are accepted'')
      \<longleftrightarrow> \<not> endswith (py_lower U filename) (str ''.wav'')) \<and>
     (ascii_conformant U \<and>
      (endswith filename (str ''.WAV'') \<or> endswith filename (str ''.Wav''))
      \<longrightarrow> upload_file U process (Some (filename, content)) =
           (case process content of Inl e \<Rightarrow> Err500 e | Inr payload \<Rightarrow> Ok200 payload))"
proof (intro conjI impI)
  assume ne: "filename \<noteq> []"
  show "(upload_file U process (Some (filename, content)) =
           Err400 (str ''Only WAV files are accepted''))
        = (\<not> endswith (py_lower U filename) (str ''.wav''))"
    using ne by (simp add: upload_file_def split: sum.splits)
next
  assume ne: "filename \<noteq> []"
    and h: "ascii_conformant U \<and>
            (endswith filename (str ''.WAV'') \<or> endswith filename (str ''.Wav''))"
  from h have "endswith (py_lower U filename) (str ''.wav'')"
    using endswith_lower_ascii [of U "str ''.WAV''" filename]
      endswith_lower_ascii [of U "str ''.Wav''" filename] wav_cases
    by metis
  then show "upload_file U process (Some (filename, content)) =
             (case process content of Inl e \<Rightarrow> Err500 e | Inr payload \<Rightarrow> Ok200 payload)"
    using ne by (simp add: upload_file_def)
qed

theorem upload_extension_check_witness:
  "upload_file latin1 (\<lambda>c. Inr c) (Some (str ''Song.WAV'', ())) = Ok200 () \<and>
   upload_file latin1 (\<lambda>c. Inr c) (Some (str ''song.Wav'', ())) = Ok200 () \<and>
   upload_file latin1 (\<lambda>c. Inr c) (Some (str ''song.mp3'', ())) =
     Err400 (str ''Only WAV files are accepted'') \<and>
   upload_file latin1 (\<lambda>c. Inr c) (Some (str ''take.wav'', ())) \<noteq>
     Err400 (str ''Only WAV files are accepted'')"
proof -
  have ne: "str ''Song.WAV'' \<noteq> []" "str ''song.Wav'' \<noteq> []"
    "str ''song.mp3'' \<noteq> []" "str ''take.wav'' \<noteq> []"
    by (simp_all add: str_def)
  have e1: "endswith (str ''Song.WAV'') (str ''.WAV'')"
    and e2: "endswith (str ''song.Wav'') (str ''.Wav'')"
    by (simp_all add: str_def endswith_def suffix_def)
  have e3: "\<not> endswith (py_lower latin1 (str ''song.mp3'')) (str ''.wav'')"
    and e4: "endswith (py_lower latin1 (str ''take.wav'')) (str ''.wav'')"
    by code_simp+
  show ?thesis
    using upload_extension_check [OF ne(1), of latin1 "\<lambda>c. Inr c" "()"]
      upload_extension_check [OF ne(2), of latin1 "\<lambda>c. Inr c" "()"]
      upload_extension_check [OF ne(3), of latin1 "\<lambda>c. Inr c" "()"]
      upload_extension_check [OF ne(4), of latin1 "\<lambda>c. Inr c" "()"]
      latin1_ascii_conformant e1 e2 e3 e4
    by simp
qed

section \<open>Properties of the cipher bundle\<close>

lemma decimal_two: "10 \<le> n \<Longrightarrow> n < 100 \<Longrightarrow> decimal n = [48 + n div 10, 48 + n mod 10]"
  by (simp add: decimal.simps [of n] decimal.simps [of "n div 10"])

lemma format_02d_two_digits: "n < 100 \<Longrightarrow> format_02d n = [48 + n div 10, 48 + n mod 10]"
proof (cases "n < 10")
  case True
  then have "decimal n = [48 + n]"
    by (simp add: decimal.simps [of n])
  with True show ?thesis
    by (simp add: format_02d_def numeral_2_eq_2)
next
  case False
  assume "n < 100"
  with False have "decimal n = [48 + n div 10, 48 + n mod 10]"
    by (simp add: decimal_two)
  then show ?thesis
    by (simp add: format_02d_def)
qed

lemma format_02d_inj: "m < 100 \<Longrightarrow> n < 100 \<Longrightarrow> format_02d m = format_02d n \<Longrightarrow> m = n"
proof -
  assume m: "m < 100" and n: "n < 100" and e: "format_02d m = format_02d n"
  from e m n have "m div 10 = n div 10" "m mod 10 = n mod 10"
    by (simp_all add: format_02d_two_digits)
  then show "m = n"
    by (metis div_mult_mod_eq)
qed

lemma quaternary_eq:
  "quaternary (extract_complex_metadata now audio) =
     str ''WLPH_VKLIW_'' @ format_02d (hour now mod 13)"
  by (simp add: extract_complex_metadata_def Let_def split: sum.splits option.splits)

lemma mod_13_upper: "13 \<le> x \<Longrightarrow> x < 26 \<Longrightarrow> x mod 13 = x - (13::nat)"
  by (simp add: le_mod_geq)

lemma mod_13_step: "h < 24 \<Longrightarrow> ((h + 1) mod 24) mod 13 \<noteq> h mod (13::nat)"
proof -
  assume "h < 24"
  then consider "h = 23" | "h < 12" | "h = 12" | "12 < h \<and> h < 23"
    by linarith
  then show ?thesis
  proof cases
    case 1
    then show ?thesis by simp
  next
    case 2
    then show ?thesis by simp
  next
    case 3
    then show ?thesis by simp
  next
    case 4
    then have "(h + 1) mod 24 = h + 1"
      by simp
    moreover have "(h + 1) mod 13 = h + 1 - 13"
      using 4 by (intro mod_13_upper) simp_all
    moreover have "h mod 13 = h - 13"
      using 4 by (intro mod_13_upper) simp_all
    moreover have "h + 1 - 13 \<noteq> h - 13"
      using 4 by linarith
    ultimately show ?thesis
      by metis
  qed
qed

text \<open>
  C4, as the code has it. The quaternary field is the prefix \<open>WLPH_VKLIW_\<close> followed by
  the two decimal digits of the local hour taken modulo 13 (a number from 0 to 12), not
  of the hour itself. It depends on the clock through the hour only, so it is stable
  within one hour, and it changes at every hour boundary (from hour \<open>h\<close> to the next
  hour, midnight included).
\<close>

theorem quaternary_hour_mod_13:
  "quaternary (extract_complex_metadata now audio) =
     str ''WLPH_VKLIW_'' @ [48 + (hour now mod 13) div 10, 48 + (hour now mod 13) mod 10] \<and>
   (hour now' = hour now \<longrightarrow>
      quaternary (extract_complex_metadata now' audio') =
      quaternary (extract_complex_metadata now audio)) \<and>
   (hour now < 24 \<and> hour now' = (hour now + 1) mod 24 \<longrightarrow>
      quaternary (extract_complex_metadata now' audio') \<noteq>
      quaternary (extract_complex_metadata now audio))"
proof (intro conjI impI)
  have lt: "hour now mod 13 < 100" by simp
  show "quaternary (extract_complex_metadata now audio) =
     str ''WLPH_VKLIW_'' @ [48 + (hour now mod 13) div 10, 48 + (hour now mod 13) mod 10]"
    by (simp only: quaternary_eq format_02d_two_digits [OF lt])
next
  assume "hour now' = hour now"
  then show "quaternary (extract_complex_metadata now' audio') =
             quaternary (extract_complex_metadata now audio)"
    by (simp only: quaternary_eq)
next
  assume h: "hour now < 24 \<and> hour now' = (hour now + 1) mod 24"
  then have ne: "hour now' mod 13 \<noteq> hour now mod 13"
    using mod_13_step [of "hour now"] by simp
  have "format_02d (hour now' mod 13) \<noteq> format_02d (hour now mod 13)"
    using format_02d_inj [of "hour now' mod 13" "hour now mod 13"] ne by fastforce
  then show "quaternary (extract_complex_metadata now' audio') \<noteq>
             quaternary (extract_complex_metadata now audio)"
    by (simp only: quaternary_eq same_append_eq not_False_eq_True)
qed

theorem quaternary_hour_mod_13_witness:
  "quaternary (extract_complex_metadata \<lparr> hour = 23, minute = 59, second = 59 \<rparr> (Inr None)) =
     str ''WLPH_VKLIW_10'' \<and>
   quaternary (extract_complex_metadata \<lparr> hour = 23, minute = 0, second = 0 \<rparr> (Inl OtherError)) =
     quaternary (extract_complex_metadata \<lparr> hour = 23, minute = 59, second = 59 \<rparr> (Inr None)) \<and>
   quaternary (extract_complex_metadata \<lparr> hour = 0, minute = 0, second = 0 \<rparr> (Inr None)) \<noteq>
     quaternary (extract_complex_metadata \<lparr> hour = 23, minute = 59, second = 59 \<rparr> (Inr None))"
proof (intro conjI)
  note t1 = quaternary_hour_mod_13 [of "\<lparr> hour = 23, minute = 59, second = 59 \<rparr>" "Inr None"
      "\<lparr> hour = 23, minute = 0, second = 0 \<rparr>" "Inl OtherError"]
  note t2 = quaternary_hour_mod_13 [of "\<lparr> hour = 23, minute = 59, second = 59 \<rparr>" "Inr None"
      "\<lparr> hour = 0, minute = 0, second = 0 \<rparr>" "Inr None"]
  show "quaternary (extract_complex_metadata \<lparr> hour = 23, minute = 59, second = 59 \<rparr> (Inr None)) =
     str ''WLPH_VKLIW_10''"
    using t1 [THEN conjunct1] by (simp add: str_def)
  show "quaternary (extract_complex_metadata \<lparr> hour = 23, minute = 0, second = 0 \<rparr> (Inl OtherError)) =
     quaternary (extract_complex_metadata \<lparr> hour = 23, minute = 59, second = 59 \<rparr> (Inr None))"
    by (rule t1 [THEN conjunct2, THEN conjunct1, rule_format]) simp
  show "quaternary (extract_complex_metadata \<lparr> hour = 0, minute = 0, second = 0 \<rparr> (Inr None)) \<noteq>
     quaternary (extract_complex_metadata \<lparr> hour = 23, minute = 59, second = 59 \<rparr> (Inr None))"
    by (rule t2 [THEN conjunct2, THEN conjunct2, rule_format]) simp
qed

text \<open>
  C4, as stated, fails: at 13 o'clock the field ends in \<open>00\<close>, not in the hour
  \<open>13\<close> padded to two digits.
\<close>

theorem quaternary_is_not_the_hour:
  "quaternary (extract_complex_metadata \<lparr> hour = 13, minute = 0, second = 0 \<rparr> (Inr None)) =
     str ''WLPH_VKLIW_00'' \<and>
   quaternary (extract_complex_metadata \<lparr> hour = 13, minute = 0, second = 0 \<rparr> (Inr None)) \<noteq>
     str ''WLPH_VKLIW_'' @ format_02d 13"
  by code_simp

section \<open>Properties of the bit-plane extractor\<close>

lemma lsb_of_shift:
  "signed_drop_bit b (x :: int16) AND 1 = of_bool (bit (sint x) b)"
proof -
  have "bit (signed_drop_bit b x) 0 \<longleftrightarrow> bit (sint x) b"
    by (auto simp: bit_signed_drop_bit_iff bit_sint_iff not_le dest: bit_imp_le_length)
  then show ?thesis
    by (simp add: and_one_eq mod_2_eq_odd bit_0 [symmetric])
qed

lemma scale_bounds: "0 \<le> drop_bit b (16383 :: int)" "drop_bit b (16383 :: int) \<le> 16383"
proof -
  show "0 \<le> drop_bit b (16383 :: int)"
    by (simp add: drop_bit_eq_div pos_imp_zdiv_nonneg_iff)
  have "(16383 :: int) div 2 ^ b \<le> 16383 div 1"
    by (rule zdiv_mono2) simp_all
  then show "drop_bit b (16383 :: int) \<le> 16383"
    by (simp add: drop_bit_eq_div)
qed

lemma sint_int16_of_int:
  "- 32768 \<le> k \<Longrightarrow> k < 32768 \<Longrightarrow> sint (word_of_int k :: int16) = k"
  by (simp add: sint_sbintrunc' signed_take_bit_int_eq_self)

lemma sint_scale: "sint (word_of_int (drop_bit b 16383) :: int16) = drop_bit b 16383"
proof -
  have "- 32768 \<le> drop_bit b (16383 :: int)" "drop_bit b (16383 :: int) < 32768"
    using scale_bounds [of b] by linarith+
  then show ?thesis
    by (rule sint_int16_of_int)
qed

lemma sint_neg_scale: "sint (- word_of_int (drop_bit b 16383) :: int16) = - drop_bit b 16383"
proof -
  have eq: "- word_of_int (drop_bit b 16383) = (word_of_int (- drop_bit b 16383) :: int16)"
    by simp
  have "- 32768 \<le> - drop_bit b (16383 :: int)" "- drop_bit b (16383 :: int) < 32768"
    using scale_bounds [of b] by linarith+
  then have "sint (word_of_int (- drop_bit b 16383) :: int16) = - drop_bit b 16383"
    by (rule sint_int16_of_int)
  then show ?thesis
    by (simp only: eq)
qed

lemma sint_hidden_audio:
  "sint (hidden_audio b x) = (2 * of_bool (bit (sint x) b) - 1) * drop_bit b 16383"
  by (simp add: hidden_audio_def lsb_of_shift sint_scale sint_neg_scale)

lemma layers_loop_lookup:
  "layers_loop data layers bps b =
     (if b \<in> set bps then Some (map (hidden_audio b) data) else layers b)"
  by (induction bps arbitrary: layers) auto

text \<open>
  C7. For every decoded array and every bit position \<open>b\<close> among the requested ones, the
  layer of \<open>b\<close> has one value per sample of the (mono-averaged) signal, each value is
  \<open>(2 * bit - 1) * (16383 >> b)\<close> with \<open>bit\<close> the \<open>b\<close>-th bit of the sample in two's
  complement, and so lies between \<open>-(16383 >> b)\<close> and \<open>16383 >> b\<close>.
\<close>

theorem layer_values:
  assumes "b \<in> set bit_positions"
  shows "\<exists>layer. extract_multi_lsb_audio data bit_positions b = Some layer \<and>
           length layer = length (to_mono data) \<and>
           (\<forall>i < length layer.
              sint (layer ! i) =
                (2 * of_bool (bit (sint (to_mono data ! i)) b) - 1) * drop_bit b 16383 \<and>
              - drop_bit b 16383 \<le> sint (layer ! i) \<and> sint (layer ! i) \<le> drop_bit b 16383)"
proof -
  have "extract_multi_lsb_audio data bit_positions b = Some (map (hidden_audio b) (to_mono data))"
    using assms by (simp add: extract_multi_lsb_audio_def layers_loop_lookup)
  moreover have "sint (hidden_audio b x) = (2 * of_bool (bit (sint x) b) - 1) * drop_bit b 16383 \<and>
      - drop_bit b 16383 \<le> sint (hidden_audio b x) \<and> sint (hidden_audio b x) \<le> drop_bit b 16383" for x
    using scale_bounds(1) [of b] by (simp add: sint_hidden_audio)
  ultimately show ?thesis
    by simp
qed

theorem layer_values_witness:
  "extract_multi_lsb_audio (Multi [[-3, 0], [5, 6], [-1, -1], [2, 2]]) [0, 1, 2] 1 =
     Some [8191, -8191, 8191, 8191] \<and>
   to_mono (Multi [[-3, 0], [5, 6], [-1, -1], [2, 2]]) = [-1, 5, -1, 2] \<and>
   sint (8191 :: int16) = (2 * of_bool (bit (sint (- 1 :: int16)) 1) - 1) * drop_bit 1 16383 \<and>
   sint (- 8191 :: int16) = (2 * of_bool (bit (sint (5 :: int16)) 1) - 1) * drop_bit 1 16383 \<and>
   - drop_bit 1 16383 \<le> sint (- 8191 :: int16) \<and> sint (- 8191 :: int16) \<le> drop_bit 1 16383"
proof -
  let ?data = "Multi [[-3, 0], [5, 6], [-1, -1], [2, 2]]"
  have ev: "extract_multi_lsb_audio ?data [0, 1, 2] 1 = Some [8191, -8191, 8191, 8191]"
    by code_simp
  have mono: "to_mono ?data = [-1, 5, -1, 2]"
    by code_simp
  have "(1::nat) \<in> set [0, 1, 2]"
    by simp
  from layer_values [OF this, of ?data] obtain layer where
    l: "extract_multi_lsb_audio ?data [0, 1, 2] 1 = Some layer"
    and v: "\<forall>i < length layer.
              sint (layer ! i) =
                (2 * of_bool (bit (sint (to_mono ?data ! i)) 1) - 1) * drop_bit 1 16383 \<and>
              - drop_bit 1 16383 \<le> sint (layer ! i) \<and> sint (layer ! i) \<le> drop_bit 1 16383"
    by blast
  from l ev have layer: "layer = [8191, -8191, 8191, 8191]"
    by simp
  from v [rule_format, of 0] v [rule_format, of 1] show ?thesis
    unfolding layer mono using ev by simp
qed

section \<open>Properties of the frequency fingerprint\<close>

lemma first_min_snoc_less:
  assumes "first_min pre bi" and "x < pre ! bi"
  shows "first_min (pre @ [x]) (length pre)"
  using assms
  by (auto simp: first_min_def nth_append less_Suc_eq intro: less_le_trans le_less_trans order.strict_trans2)

lemma first_min_snoc_ge:
  assumes "first_min pre bi" and "\<not> x < pre ! bi"
  shows "first_min (pre @ [x]) bi"
  using assms
  by (auto simp: first_min_def nth_append less_Suc_eq)

lemma argmin_scan_first_min:
  "first_min pre bi \<Longrightarrow> i = length pre \<Longrightarrow> best = pre ! bi \<Longrightarrow>
     first_min (pre @ xs) (argmin_scan xs i bi best)"
proof (induction xs arbitrary: pre i bi best)
  case Nil
  then show ?case by simp
next
  case (Cons x xs)
  show ?case
  proof (cases "x < best")
    case True
    with Cons.prems have "first_min (pre @ [x]) (length pre)"
      by (simp add: first_min_snoc_less)
    from Cons.IH [OF this, of "i + 1" x] Cons.prems True show ?thesis
      by simp
  next
    case False
    with Cons.prems have fm: "first_min (pre @ [x]) bi"
      by (simp add: first_min_snoc_ge)
    have "bi < length pre"
      using Cons.prems by (simp add: first_min_def)
    then have "best = (pre @ [x]) ! bi"
      using Cons.prems by (simp add: nth_append)
    from Cons.IH [OF fm, of "i + 1" best] this Cons.prems False show ?thesis
      by simp
  qed
qed

lemma np_argmin_first_min: "np_argmin xs = Inr i \<Longrightarrow> first_min xs i"
proof (cases xs)
  case Nil
  assume "np_argmin xs = Inr i"
  with Nil show ?thesis by simp
next
  case (Cons x rest)
  assume a: "np_argmin xs = Inr i"
  have "first_min [x] 0"
    by (simp add: first_min_def)
  from argmin_scan_first_min [OF this, of 1 x rest] a Cons show ?thesis
    by simp
qed

lemma np_argmin_nonempty: "xs \<noteq> [] \<Longrightarrow> \<exists>i. np_argmin xs = Inr i"
  by (cases xs) simp_all

lemma py_int_mod_2: "py_int x mod 2 \<in> {0, 1}"
  by auto

lemma hidden_data_loop_spec:
  assumes "hidden_data_loop fl phase freq_bins acc targets = Inr h"
    and "length freq_bins \<le> length phase"
  shows "length h = length acc + length targets \<and> take (length acc) h = acc \<and>
         (\<forall>k < length targets. \<exists>b p.
            first_min (np_abs_sub fl freq_bins (targets ! k)) b \<and> phase ! b = Some p \<and>
            h ! (length acc + k) = py_int (fl (p * 1000)) mod 2)"
  using assms
proof (induction targets arbitrary: acc)
  case Nil
  then show ?case by simp
next
  case (Cons freq rest)
  from Cons.prems(1) obtain b where b: "np_argmin (np_abs_sub fl freq_bins freq) = Inr b"
    by (auto split: sum.splits)
  then have fm: "first_min (np_abs_sub fl freq_bins freq) b"
    by (rule np_argmin_first_min)
  then have "b < length freq_bins"
    by (simp add: first_min_def np_abs_sub_def)
  with Cons.prems(2) have bl: "b < length phase"
    by simp
  with Cons.prems(1) b obtain p where p: "phase ! b = Some p"
    by (auto split: option.splits)
  let ?v = "py_int (fl (p * 1000)) mod 2"
  from Cons.prems(1) b bl p
  have rest: "hidden_data_loop fl phase freq_bins (acc @ [?v]) rest = Inr h"
    by (simp add: Let_def)
  note ih = Cons.IH [OF rest Cons.prems(2)]
  from ih have len: "length h = length acc + length (freq # rest)"
    by simp
  from ih have tk: "take (Suc (length acc)) h = acc @ [?v]"
    by simp
  then have "take (length acc) (take (Suc (length acc)) h) = take (length acc) (acc @ [?v])"
    by simp
  then have tk': "take (length acc) h = acc"
    by (simp add: min_def)
  have hv: "h ! length acc = ?v"
  proof -
    have "h ! length acc = take (Suc (length acc)) h ! length acc"
      by simp
    also have "\<dots> = ?v"
      by (simp only: tk nth_append_length)
    finally show ?thesis .
  qed
  have "\<exists>b p. first_min (np_abs_sub fl freq_bins ((freq # rest) ! k)) b \<and> phase ! b = Some p \<and>
            h ! (length acc + k) = py_int (fl (p * 1000)) mod 2" if k: "k < length (freq # rest)" for k
  proof (cases k)
    case 0
    with fm p hv show ?thesis by auto
  next
    case (Suc k')
    with k have "k' < length rest" by simp
    with ih obtain b' p' where "first_min (np_abs_sub fl freq_bins (rest ! k')) b'" "phase ! b' = Some p'"
      "h ! (length (acc @ [?v]) + k') = py_int (fl (p' * 1000)) mod 2"
      by blast
    with Suc show ?thesis by auto
  qed
  with len tk' show ?case by blast
qed

lemma hidden_data_loop_total:
  assumes "freq_bins \<noteq> []" and "length freq_bins \<le> length phase" and "None \<notin> set phase"
  shows "\<exists>h. hidden_data_loop fl phase freq_bins acc targets = Inr h"
proof (induction targets arbitrary: acc)
  case Nil
  show ?case by simp
next
  case (Cons freq rest)
  have "np_abs_sub fl freq_bins freq \<noteq> []"
    using assms(1) by (simp add: np_abs_sub_def)
  then obtain b where b: "np_argmin (np_abs_sub fl freq_bins freq) = Inr b"
    using np_argmin_nonempty by blast
  then have "first_min (np_abs_sub fl freq_bins freq) b"
    by (rule np_argmin_first_min)
  then have "b < length phase"
    using assms(2) by (simp add: first_min_def np_abs_sub_def)
  moreover from this have "phase ! b \<in> set phase"
    by simp
  then have "phase ! b \<noteq> None"
    using assms(3) by metis
  then obtain p where "phase ! b = Some p"
    by blast
  ultimately show ?case
    using b Cons.IH by (simp add: Let_def)
qed

text \<open>
  C5, as the code has it. When the two arrays are not empty and every phase entry is a
  number, each of the four values comes from the first bin whose absolute difference to
  the target frequency (440, 880, 1320, 1760) is smallest, and it is
  \<open>int(p * 1000) % 2\<close> for the phase \<open>p\<close> of that bin: the product is truncated
  towards zero, not floored.
\<close>

theorem fingerprint_bin_and_parity:
  assumes "freq_bins \<noteq> []" and "length phase = length freq_bins" and "None \<notin> set phase"
  shows "length (extract_frequency_domain_data fl (Inr (phase, freq_bins))) = 4 \<and>
         (\<forall>k < 4. \<exists>b p.
            first_min (np_abs_sub fl freq_bins (target_freqs ! k)) b \<and> phase ! b = Some p \<and>
            extract_frequency_domain_data fl (Inr (phase, freq_bins)) ! k =
              py_int (fl (p * 1000)) mod 2)"
proof -
  from assms obtain h where h: "hidden_data_loop fl phase freq_bins [] target_freqs = Inr h"
    using hidden_data_loop_total [of freq_bins phase fl "[]" target_freqs] by auto
  have e: "extract_frequency_domain_data fl (Inr (phase, freq_bins)) = h"
    by (simp add: extract_frequency_domain_data_def h)
  have "length freq_bins \<le> length phase"
    using assms(2) by simp
  from hidden_data_loop_spec [OF h this] show ?thesis
    unfolding e by (simp add: target_freqs_def)
qed

text \<open>
  C6. The two arrays of the spectrum have the length of the signal. Then the function
  returns exactly four values, each 0 or 1, for every signal and sample rate; and when a
  step fails (a library call, \<open>argmin\<close> on an empty array, \<open>int\<close> on a phase that is not
  a number) it returns \<open>[0, 1, 0, 1]\<close>.
\<close>

theorem fingerprint_four_bits:
  assumes "\<forall>phase freq_bins. spectrum = Inr (phase, freq_bins) \<longrightarrow> length phase = length freq_bins"
  shows "length (extract_frequency_domain_data fl spectrum) = 4 \<and>
         set (extract_frequency_domain_data fl spectrum) \<subseteq> {0, 1} \<and>
         ((\<exists>e. spectrum = Inl e) \<or>
          (\<exists>phase freq_bins e. spectrum = Inr (phase, freq_bins) \<and>
             hidden_data_loop fl phase freq_bins [] target_freqs = Inl e)
          \<longrightarrow> extract_frequency_domain_data fl spectrum = [0, 1, 0, 1])"
proof -
  let ?r = "extract_frequency_domain_data fl spectrum"
  have fallback: "?r = [0, 1, 0, 1]"
    if "(\<exists>e. spectrum = Inl e) \<or>
        (\<exists>phase freq_bins e. spectrum = Inr (phase, freq_bins) \<and>
           hidden_data_loop fl phase freq_bins [] target_freqs = Inl e)"
    using that by (auto simp: extract_frequency_domain_data_def)
  have "length ?r = 4 \<and> set ?r \<subseteq> {0, 1}"
  proof (cases "(\<exists>e. spectrum = Inl e) \<or>
        (\<exists>phase freq_bins e. spectrum = Inr (phase, freq_bins) \<and>
           hidden_data_loop fl phase freq_bins [] target_freqs = Inl e)")
    case True
    then have "?r = [0, 1, 0, 1]" by (rule fallback)
    then show ?thesis by simp
  next
    case False
    then obtain phase freq_bins h where s: "spectrum = Inr (phase, freq_bins)"
      and h: "hidden_data_loop fl phase freq_bins [] target_freqs = Inr h"
      by (cases spectrum; cases "hidden_data_loop fl (fst (projr spectrum)) (snd (projr spectrum)) [] target_freqs") auto
    have r: "?r = h"
      by (simp add: extract_frequency_domain_data_def s h)
    have "length freq_bins \<le> length phase"
      using assms s by simp
    note sp = hidden_data_loop_spec [OF h this]
    then have len: "length h = 4"
      by (simp add: target_freqs_def)
    have "x \<in> {0, 1}" if "x \<in> set h" for x
    proof -
      from that obtain k where k: "k < length h" "h ! k = x"
        by (auto simp: in_set_conv_nth)
      with len have "k < length target_freqs"
        by (simp add: target_freqs_def)
      with sp obtain p where "h ! (length ([] :: int list) + k) = py_int (fl (p * 1000)) mod 2"
        by blast
      with k show ?thesis
        by auto
    qed
    with len r show ?thesis
      by auto
  qed
  with fallback show ?thesis
    by blast
qed

lemma first_min_unique: "first_min xs i \<Longrightarrow> first_min xs j \<Longrightarrow> i = j"
proof (rule ccontr)
  assume i: "first_min xs i" and j: "first_min xs j" and ne: "i \<noteq> j"
  then consider "i < j" | "j < i" by linarith
  then show False
  proof cases
    case 1
    with j have "xs ! j < xs ! i" by (simp add: first_min_def)
    moreover from i j have "xs ! i \<le> xs ! j" by (simp add: first_min_def)
    ultimately show False by simp
  next
    case 2
    with i have "xs ! i < xs ! j" by (simp add: first_min_def)
    moreover from i j have "xs ! j \<le> xs ! i" by (simp add: first_min_def)
    ultimately show False by simp
  qed
qed

theorem fingerprint_bin_and_parity_witness:
  "extract_frequency_domain_data float64_round
     (Inr ([Some 0, Some (- 884279719003555 / 1125899906842624), Some 0,
            Some (884279719003555 / 1125899906842624)],
           [0, 512, - 1024, - 512])) ! 0 =
     py_int (float64_round ((- 884279719003555 / 1125899906842624) * 1000)) mod 2 \<and>
   first_min (np_abs_sub float64_round [0, 512, - 1024, - 512] 440) 1 \<and>
   py_int (float64_round ((- 884279719003555 / 1125899906842624) * 1000)) = - 785"
proof -
  let ?phase = "[Some 0, Some (- 884279719003555 / 1125899906842624), Some 0,
                 Some (884279719003555 / 1125899906842624 :: rat)]"
  let ?freq_bins = "[0, 512, - 1024, - 512 :: rat]"
  have a: "?freq_bins \<noteq> []" "length ?phase = length ?freq_bins" "None \<notin> set ?phase"
    by simp_all
  have "np_argmin (np_abs_sub float64_round ?freq_bins 440) = Inr 1"
    by code_simp
  then have fm: "first_min (np_abs_sub float64_round ?freq_bins 440) 1"
    by (rule np_argmin_first_min)
  from fingerprint_bin_and_parity [OF a, of float64_round]
  obtain b p where "first_min (np_abs_sub float64_round ?freq_bins (target_freqs ! 0)) b"
    and p: "?phase ! b = Some p"
    and v: "extract_frequency_domain_data float64_round (Inr (?phase, ?freq_bins)) ! 0 =
            py_int (float64_round (p * 1000)) mod 2"
    by (metis zero_less_numeral)
  then have "first_min (np_abs_sub float64_round ?freq_bins 440) b"
    by (simp add: target_freqs_def)
  with fm have "b = 1"
    by (rule first_min_unique [symmetric])
  with p have "p = - 884279719003555 / 1125899906842624"
    by simp
  with v have "extract_frequency_domain_data float64_round (Inr (?phase, ?freq_bins)) ! 0 =
     py_int (float64_round ((- 884279719003555 / 1125899906842624) * 1000)) mod 2"
    by simp
  moreover have "py_int (float64_round ((- 884279719003555 / 1125899906842624) * 1000)) = - 785"
    by code_simp
  ultimately show ?thesis
    using fm by blast
qed

text \<open>
  C5, as stated, fails. The signal \<open>[1, 1, 0, 0]\<close> at 2048 Hz has the transform
  \<open>[2, 1 - i, 0, 1 + i]\<close>,
  the phases \<open>[0, -\<pi>/4, 0, \<pi>/4]\<close> (as float64 values) and the bins
  \<open>[0, 512, -1024, -512]\<close>. Bin 1 is the closest to each target, its phase times 1000
  is about \<open>-785.398\<close>, and the function returns \<open>[1, 1, 1, 1]\<close> since
  \<open>int\<close> gives \<open>-785\<close>; the floor is \<open>-786\<close>, which is even.
\<close>

theorem fingerprint_truncates_not_floors:
  "extract_frequency_domain_data float64_round
     (Inr ([Some 0, Some (- 884279719003555 / 1125899906842624), Some 0,
            Some (884279719003555 / 1125899906842624)],
           [0, 512, - 1024, - 512])) = [1, 1, 1, 1] \<and>
   map (\<lambda>freq. np_argmin (np_abs_sub float64_round [0, 512, - 1024, - 512] freq)) target_freqs =
     [Inr 1, Inr 1, Inr 1, Inr 1] \<and>
   \<lfloor>float64_round ((- 884279719003555 / 1125899906842624) * 1000)\<rfloor> mod 2 = 0"
  by code_simp

theorem fingerprint_four_bits_witness:
  "extract_frequency_domain_data float64_round (Inr ([None], [0])) = [0, 1, 0, 1] \<and>
   extract_frequency_domain_data float64_round (Inl ZeroDivisionError) = [0, 1, 0, 1] \<and>
   length (extract_frequency_domain_data float64_round
     (Inr ([Some 0, Some (- 884279719003555 / 1125899906842624), Some 0,
            Some (884279719003555 / 1125899906842624)],
           [0, 512, - 1024, - 512]))) = 4 \<and>
   set (extract_frequency_domain_data float64_round
     (Inr ([Some 0, Some (- 884279719003555 / 1125899906842624), Some 0,
            Some (884279719003555 / 1125899906842624)],
           [0, 512, - 1024, - 512]))) \<subseteq> {0, 1}"
proof -
  have nan: "hidden_data_loop float64_round [None] [0] [] target_freqs = Inl ValueError"
    by code_simp
  have t1: "extract_frequency_domain_data float64_round (Inr ([None], [0])) = [0, 1, 0, 1]"
    using fingerprint_four_bits [of "Inr ([None], [0])" float64_round] nan by simp
  have t2: "extract_frequency_domain_data float64_round (Inl ZeroDivisionError) = [0, 1, 0, 1]"
    using fingerprint_four_bits [of "Inl ZeroDivisionError" float64_round] by simp
  show ?thesis
    using t1 t2
      fingerprint_four_bits [of "Inr ([Some 0, Some (- 884279719003555 / 1125899906842624), Some 0,
            Some (884279719003555 / 1125899906842624)], [0, 512, - 1024, - 512])" float64_round]
    by simp
qed

section \<open>The two stages of the decryption, character by character\<close>

lemma caesar_loop_spec:
  assumes "caesar_loop U s acc xs = Inr out"
  shows "\<exists>ys. out = acc @ ys \<and> length ys = length xs \<and>
           (\<forall>i < length xs.
              if isalpha U (xs ! i)
              then \<exists>oc. py_ord (upper_cp U (xs ! i)) = Inr oc \<and>
                        ys ! i = py_chr ((oc - 65 - s) mod 26 + 65)
              else ys ! i = xs ! i)"
  using assms
proof (induction xs arbitrary: acc)
  case Nil
  then show ?case by simp
next
  case (Cons ch rest)
  show ?case
  proof (cases "isalpha U ch")
    case True
    with Cons.prems obtain oc where oc: "py_ord (upper_cp U ch) = Inr oc"
      and r: "caesar_loop U s (acc @ [py_chr ((oc - 65 - s) mod 26 + 65)]) rest = Inr out"
      by (auto simp: Let_def split: sum.splits)
    from Cons.IH [OF r] obtain ys where ys: "out = (acc @ [py_chr ((oc - 65 - s) mod 26 + 65)]) @ ys"
      "length ys = length rest"
      "\<forall>i < length rest.
              if isalpha U (rest ! i)
              then \<exists>oc. py_ord (upper_cp U (rest ! i)) = Inr oc \<and>
                        ys ! i = py_chr ((oc - 65 - s) mod 26 + 65)
              else ys ! i = rest ! i"
      by blast
    let ?ys = "py_chr ((oc - 65 - s) mod 26 + 65) # ys"
    have "\<forall>i < length (ch # rest).
              if isalpha U ((ch # rest) ! i)
              then \<exists>oc. py_ord (upper_cp U ((ch # rest) ! i)) = Inr oc \<and>
                        ?ys ! i = py_chr ((oc - 65 - s) mod 26 + 65)
              else ?ys ! i = (ch # rest) ! i"
      using ys(3) True oc by (auto simp: nth_Cons split: nat.splits)
    with ys(1,2) show ?thesis
      by (intro exI [of _ ?ys]) simp
  next
    case False
    with Cons.prems have r: "caesar_loop U s (acc @ [ch]) rest = Inr out"
      by simp
    from Cons.IH [OF r] obtain ys where ys: "out = (acc @ [ch]) @ ys"
      "length ys = length rest"
      "\<forall>i < length rest.
              if isalpha U (rest ! i)
              then \<exists>oc. py_ord (upper_cp U (rest ! i)) = Inr oc \<and>
                        ys ! i = py_chr ((oc - 65 - s) mod 26 + 65)
              else ys ! i = rest ! i"
      by blast
    let ?ys = "ch # ys"
    have "\<forall>i < length (ch # rest).
              if isalpha U ((ch # rest) ! i)
              then \<exists>oc. py_ord (upper_cp U ((ch # rest) ! i)) = Inr oc \<and>
                        ?ys ! i = py_chr ((oc - 65 - s) mod 26 + 65)
              else ?ys ! i = (ch # rest) ! i"
      using ys(3) False by (auto simp: nth_Cons split: nat.splits)
    with ys(1,2) show ?thesis
      by (intro exI [of _ ?ys]) simp
  qed
qed

lemma vigenere_loop_spec:
  assumes "vigenere_loop U K acc ki xs = Inr out"
  shows "\<exists>ys. out = acc @ ys \<and> length ys = length xs \<and>
           (\<forall>i < length xs.
              if isalpha U (xs ! i)
              then \<exists>oc. py_ord (upper_cp U (xs ! i)) = Inr oc \<and> K \<noteq> [] \<and>
                     ys ! i = py_chr ((oc - 65 -
                       (int (K ! ((ki + length (filter (isalpha U) (take i xs))) mod length K)) - 65))
                       mod 26 + 65)
              else ys ! i = xs ! i)"
  using assms
proof (induction xs arbitrary: acc ki)
  case Nil
  then show ?case by simp
next
  case (Cons ch rest)
  show ?case
  proof (cases "isalpha U ch")
    case True
    let ?y = "\<lambda>oc. py_chr ((oc - 65 - (int (K ! (ki mod length K)) - 65)) mod 26 + 65)"
    from True Cons.prems obtain oc where oc: "py_ord (upper_cp U ch) = Inr oc"
      and K: "K \<noteq> []"
      and r: "vigenere_loop U K (acc @ [?y oc]) (ki + 1) rest = Inr out"
      by (auto simp: Let_def split: sum.splits if_splits)
    from Cons.IH [OF r] obtain ys where ys: "out = (acc @ [?y oc]) @ ys"
      "length ys = length rest"
      "\<forall>i < length rest.
              if isalpha U (rest ! i)
              then \<exists>oc. py_ord (upper_cp U (rest ! i)) = Inr oc \<and> K \<noteq> [] \<and>
                     ys ! i = py_chr ((oc - 65 -
                       (int (K ! ((ki + 1 + length (filter (isalpha U) (take i rest))) mod length K)) - 65))
                       mod 26 + 65)
              else ys ! i = rest ! i"
      by blast
    let ?ys = "?y oc # ys"
    have "\<forall>i < length (ch # rest).
              if isalpha U ((ch # rest) ! i)
              then \<exists>oc. py_ord (upper_cp U ((ch # rest) ! i)) = Inr oc \<and> K \<noteq> [] \<and>
                     ?ys ! i = py_chr ((oc - 65 -
                       (int (K ! ((ki + length (filter (isalpha U) (take i (ch # rest)))) mod length K)) - 65))
                       mod 26 + 65)
              else ?ys ! i = (ch # rest) ! i"
    proof (intro allI impI)
      fix i assume "i < length (ch # rest)"
      then show "if isalpha U ((ch # rest) ! i)
              then \<exists>oc. py_ord (upper_cp U ((ch # rest) ! i)) = Inr oc \<and> K \<noteq> [] \<and>
                     ?ys ! i = py_chr ((oc - 65 -
                       (int (K ! ((ki + length (filter (isalpha U) (take i (ch # rest)))) mod length K)) - 65))
                       mod 26 + 65)
              else ?ys ! i = (ch # rest) ! i"
      proof (cases i)
        case 0
        with True oc K show ?thesis by simp
      next
        case (Suc j)
        with \<open>i < length (ch # rest)\<close> have "j < length rest" by simp
        from ys(3) [rule_format, OF this] Suc True show ?thesis by (auto split: if_splits)
      qed
    qed
    with ys(1,2) show ?thesis
      by (intro exI [of _ ?ys]) simp
  next
    case False
    with Cons.prems have r: "vigenere_loop U K (acc @ [ch]) ki rest = Inr out"
      by simp
    from Cons.IH [OF r] obtain ys where ys: "out = (acc @ [ch]) @ ys"
      "length ys = length rest"
      "\<forall>i < length rest.
              if isalpha U (rest ! i)
              then \<exists>oc. py_ord (upper_cp U (rest ! i)) = Inr oc \<and> K \<noteq> [] \<and>
                     ys ! i = py_chr ((oc - 65 -
                       (int (K ! ((ki + length (filter (isalpha U) (take i rest))) mod length K)) - 65))
                       mod 26 + 65)
              else ys ! i = rest ! i"
      by blast
    let ?ys = "ch # ys"
    have "\<forall>i < length (ch # rest).
              if isalpha U ((ch # rest) ! i)
              then \<exists>oc. py_ord (upper_cp U ((ch # rest) ! i)) = Inr oc \<and> K \<noteq> [] \<and>
                     ?ys ! i = py_chr ((oc - 65 -
                       (int (K ! ((ki + length (filter (isalpha U) (take i (ch # rest)))) mod length K)) - 65))
                       mod 26 + 65)
              else ?ys ! i = (ch # rest) ! i"
    proof (intro allI impI)
      fix i assume "i < length (ch # rest)"
      then show "if isalpha U ((ch # rest) ! i)
              then \<exists>oc. py_ord (upper_cp U ((ch # rest) ! i)) = Inr oc \<and> K \<noteq> [] \<and>
                     ?ys ! i = py_chr ((oc - 65 -
                       (int (K ! ((ki + length (filter (isalpha U) (take i (ch # rest)))) mod length K)) - 65))
                       mod 26 + 65)
              else ?ys ! i = (ch # rest) ! i"
      proof (cases i)
        case 0
        with False show ?thesis by simp
      next
        case (Suc j)
        with \<open>i < length (ch # rest)\<close> have "j < length rest" by simp
        from ys(3) [rule_format, OF this] Suc False show ?thesis by (auto split: if_splits)
      qed
    qed
    with ys(1,2) show ?thesis
      by (intro exI [of _ ?ys]) simp
  qed
qed

lemma py_chr_letter: "ascii_letter (py_chr (x mod 26 + 65))"
proof -
  have "0 \<le> x mod 26" "x mod 26 < 26"
    by simp_all
  then show ?thesis
    unfolding ascii_letter_def py_chr_def by linarith
qed

text \<open>
  C3. When \<open>advanced_vigenere_decrypt\<close> runs its two stages and returns, both stages
  keep the length of the text, and every non-alphabetic character of the ciphertext
  stands unchanged at its position in the output of the Caesar stage and in the output
  of the Vigen\`ere stage. The Vigen\`ere stage subtracts from an alphabetic character at
  position \<open>i\<close> the key character at index \<open>n mod len(key)\<close> of the upper-cased key,
  where \<open>n\<close> is the number of alphabetic characters before position \<open>i\<close>: the other
  characters do not advance the key index. The alphabetic positions of the two stages
  are the same, since the Caesar stage emits capital letters at them.
\<close>

theorem stages_pass_non_letters:
  assumes "ciphertext \<noteq> []" and "key \<noteq> []"
    and "advanced_vigenere_decrypt U ciphertext key caesar_shift = Inr plaintext"
  shows "\<exists>caesar_decrypted.
           caesar_stage U caesar_shift ciphertext = Inr caesar_decrypted \<and>
           vigenere_stage U key caesar_decrypted = Inr plaintext \<and>
           length caesar_decrypted = length ciphertext \<and>
           length plaintext = length ciphertext \<and>
           (\<forall>i < length ciphertext. \<not> isalpha U (ciphertext ! i) \<longrightarrow>
              caesar_decrypted ! i = ciphertext ! i \<and> plaintext ! i = ciphertext ! i) \<and>
           (\<forall>i < length ciphertext. isalpha U (caesar_decrypted ! i) \<longrightarrow>
              (\<exists>oc. py_ord (upper_cp U (caesar_decrypted ! i)) = Inr oc \<and>
                 plaintext ! i = py_chr ((oc - 65 -
                   (int (py_upper U key !
                      (length (filter (isalpha U) (take i caesar_decrypted))
                       mod length (py_upper U key))) - 65)) mod 26 + 65))) \<and>
           (ascii_conformant U \<longrightarrow>
              (\<forall>i < length ciphertext.
                 isalpha U (caesar_decrypted ! i) = isalpha U (ciphertext ! i)))"
proof -
  from assms obtain cd where cd: "caesar_stage U caesar_shift ciphertext = Inr cd"
    and pt: "vigenere_stage U key cd = Inr plaintext"
    by (auto simp: advanced_vigenere_decrypt_def split: sum.splits)
  from cd have "caesar_loop U caesar_shift [] ciphertext = Inr cd"
    by (simp add: caesar_stage_def)
  from caesar_loop_spec [OF this]
  have c_len: "length cd = length ciphertext"
    and c_at: "\<forall>i < length ciphertext.
              if isalpha U (ciphertext ! i)
              then \<exists>oc. py_ord (upper_cp U (ciphertext ! i)) = Inr oc \<and>
                        cd ! i = py_chr ((oc - 65 - caesar_shift) mod 26 + 65)
              else cd ! i = ciphertext ! i"
    by auto
  from pt have "vigenere_loop U (py_upper U key) [] 0 cd = Inr plaintext"
    by (simp add: vigenere_stage_def)
  from vigenere_loop_spec [OF this]
  have v_len: "length plaintext = length cd"
    and v_at: "\<forall>i < length cd.
              if isalpha U (cd ! i)
              then \<exists>oc. py_ord (upper_cp U (cd ! i)) = Inr oc \<and> py_upper U key \<noteq> [] \<and>
                     plaintext ! i = py_chr ((oc - 65 -
                       (int (py_upper U key ! ((0 + length (filter (isalpha U) (take i cd)))
                          mod length (py_upper U key))) - 65))
                       mod 26 + 65)
              else plaintext ! i = cd ! i"
    by auto
  have pass: "caesar_decrypted_i = ciphertext ! i \<and> plaintext ! i = ciphertext ! i"
    if "i < length ciphertext" "\<not> isalpha U (ciphertext ! i)" "caesar_decrypted_i = cd ! i"
    for i caesar_decrypted_i
  proof -
    from c_at that have e: "cd ! i = ciphertext ! i"
      by auto
    with that have "\<not> isalpha U (cd ! i)"
      by simp
    moreover have "i < length cd"
      using that c_len by simp
    ultimately have "plaintext ! i = cd ! i"
      using v_at by auto
    with e that show ?thesis
      by simp
  qed
  have keyed: "\<exists>oc. py_ord (upper_cp U (cd ! i)) = Inr oc \<and>
                 plaintext ! i = py_chr ((oc - 65 -
                   (int (py_upper U key !
                      (length (filter (isalpha U) (take i cd))
                       mod length (py_upper U key))) - 65)) mod 26 + 65)"
    if "i < length ciphertext" "isalpha U (cd ! i)" for i
  proof -
    have "i < length cd"
      using that c_len by simp
    from v_at [rule_format, OF this] that show ?thesis
      by (auto split: if_splits)
  qed
  have same: "isalpha U (cd ! i) = isalpha U (ciphertext ! i)"
    if "ascii_conformant U" "i < length ciphertext" for i
  proof (cases "isalpha U (ciphertext ! i)")
    case True
    with c_at that obtain oc where "cd ! i = py_chr ((oc - 65 - caesar_shift) mod 26 + 65)"
      by (auto split: if_splits)
    then have "ascii_letter (cd ! i)"
      by (simp add: py_chr_letter)
    with that True show ?thesis
      by (simp add: ascii_conformant_def)
  next
    case False
    with c_at that have "cd ! i = ciphertext ! i"
      by auto
    then show ?thesis
      by simp
  qed
  from cd pt c_len v_len pass keyed same show ?thesis
    by (intro exI [of _ cd]) simp
qed

theorem stages_pass_non_letters_witness:
  "advanced_vigenere_decrypt latin1 (str ''AB-CD'') (str ''XY'') 3 = Inr (str ''AA-CC'') \<and>
   caesar_stage latin1 3 (str ''AB-CD'') = Inr (str ''XY-ZA'') \<and>
   str ''XY-ZA'' ! 2 = str ''AB-CD'' ! 2 \<and>
   str ''AA-CC'' ! 2 = str ''AB-CD'' ! 2 \<and>
   length (filter (isalpha latin1) (take 3 (str ''XY-ZA''))) = 2 \<and>
   py_ord (upper_cp latin1 (str ''XY-ZA'' ! 3)) = Inr 90 \<and>
   str ''AA-CC'' ! 3 =
     py_chr ((90 - 65 - (int (py_upper latin1 (str ''XY'') ! (2 mod 2)) - 65)) mod 26 + 65)"
proof -
  have ne: "str ''AB-CD'' \<noteq> []" "str ''XY'' \<noteq> []"
    by (simp_all add: str_def)
  have ev: "advanced_vigenere_decrypt latin1 (str ''AB-CD'') (str ''XY'') 3 = Inr (str ''AA-CC'')"
    by code_simp
  have cs: "caesar_stage latin1 3 (str ''AB-CD'') = Inr (str ''XY-ZA'')"
    by code_simp
  from stages_pass_non_letters [OF ne ev] cs
  have pass: "\<forall>i < length (str ''AB-CD''). \<not> isalpha latin1 (str ''AB-CD'' ! i) \<longrightarrow>
              str ''XY-ZA'' ! i = str ''AB-CD'' ! i \<and> str ''AA-CC'' ! i = str ''AB-CD'' ! i"
    and keyed: "\<forall>i < length (str ''AB-CD''). isalpha latin1 (str ''XY-ZA'' ! i) \<longrightarrow>
              (\<exists>oc. py_ord (upper_cp latin1 (str ''XY-ZA'' ! i)) = Inr oc \<and>
                 str ''AA-CC'' ! i = py_chr ((oc - 65 -
                   (int (py_upper latin1 (str ''XY'') !
                      (length (filter (isalpha latin1) (take i (str ''XY-ZA'')))
                       mod length (py_upper latin1 (str ''XY'')))) - 65)) mod 26 + 65))"
    by auto
  have i2: "2 < length (str ''AB-CD'')" "\<not> isalpha latin1 (str ''AB-CD'' ! 2)"
    and i3: "3 < length (str ''AB-CD'')" "isalpha latin1 (str ''XY-ZA'' ! 3)"
    by code_simp+
  have cnt: "length (filter (isalpha latin1) (take 3 (str ''XY-ZA''))) = 2"
    and klen: "length (py_upper latin1 (str ''XY'')) = 2"
    and o3: "py_ord (upper_cp latin1 (str ''XY-ZA'' ! 3)) = Inr 90"
    by code_simp+
  from keyed [rule_format, OF i3] o3
  have "str ''AA-CC'' ! 3 =
     py_chr ((90 - 65 - (int (py_upper latin1 (str ''XY'') ! (2 mod 2)) - 65)) mod 26 + 65)"
    by (simp only: cnt klen) simp
  with pass [rule_format, OF i2] ev cs cnt o3 show ?thesis
    by blast
qed

subsection \<open>The round trip\<close>

lemma rot_range: "65 \<le> rot n c \<and> rot n c \<le> 90"
proof -
  have "0 \<le> (int (ascii_upper c) - 65 + n) mod 26" "(int (ascii_upper c) - 65 + n) mod 26 < 26"
    by simp_all
  then show ?thesis
    unfolding rot_def py_chr_def by linarith
qed

lemma rot_letter: "ascii_letter (rot n c)"
  using rot_range [of n c] by (simp add: ascii_letter_def)

lemma rot_upper: "ascii_upper (rot n c) = rot n c"
  using rot_range [of n c] by (simp add: ascii_upper_def)

lemma int_rot: "int (rot n c) = (int (ascii_upper c) - 65 + n) mod 26 + 65"
  by (simp add: rot_def py_chr_def)

lemma rot_rot: "rot m (rot n c) = rot (n + m) c"
proof -
  have "(int (rot n c) - 65 + m) mod 26 = (int (ascii_upper c) - 65 + (n + m)) mod 26"
    by (simp add: int_rot mod_add_left_eq add.assoc)
  then have "py_chr ((int (ascii_upper (rot n c)) - 65 + m) mod 26 + 65) =
             py_chr ((int (ascii_upper c) - 65 + (n + m)) mod 26 + 65)"
    by (simp only: rot_upper)
  then show ?thesis
    by (simp only: rot_def [of m "rot n c"] rot_def [of "n + m" c])
qed

lemma rot_0: "ascii_letter c \<Longrightarrow> rot 0 c = ascii_upper c"
proof -
  assume "ascii_letter c"
  then have "65 \<le> ascii_upper c \<and> ascii_upper c \<le> 90"
    by (auto simp: ascii_letter_def ascii_upper_def)
  then show ?thesis
    by (simp add: rot_def py_chr_def)
qed

lemma conformant_letter:
  "ascii_conformant U \<Longrightarrow> ascii_letter c \<Longrightarrow>
     isalpha U c \<and> py_ord (upper_cp U c) = Inr (int (ascii_upper c))"
  by (simp add: ascii_conformant_def)

lemma caesar_loop_letters:
  assumes "ascii_conformant U" and "\<forall>c \<in> set xs. ascii_letter c"
  shows "caesar_loop U s acc xs = Inr (acc @ map (rot (- s)) xs)"
  using assms(2)
proof (induction xs arbitrary: acc)
  case Nil
  show ?case by simp
next
  case (Cons c cs)
  then have "ascii_letter c" by simp
  from conformant_letter [OF assms(1) this] Cons show ?case
    by (simp add: rot_def)
qed

lemma reference_caesar_loop_letters:
  assumes "ascii_conformant U" and "\<forall>c \<in> set xs. ascii_letter c"
  shows "reference_caesar_encrypt_loop U s acc xs = Inr (acc @ map (rot s) xs)"
  using assms(2)
proof (induction xs arbitrary: acc)
  case Nil
  show ?case by simp
next
  case (Cons c cs)
  then have "ascii_letter c" by simp
  from conformant_letter [OF assms(1) this] Cons show ?case
    by (simp add: rot_def)
qed

lemma vigenere_loop_letters:
  assumes "ascii_conformant U" and "\<forall>c \<in> set xs. ascii_letter c" and "K \<noteq> []"
  shows "vigenere_loop U K acc ki xs = Inr (acc @ rot_by_key (- 1) K ki xs)"
  using assms(2)
proof (induction xs arbitrary: acc ki)
  case Nil
  show ?case by simp
next
  case (Cons c cs)
  then have "ascii_letter c" by simp
  from conformant_letter [OF assms(1) this] Cons assms(3) show ?case
    by (simp add: rot_def)
qed

lemma reference_vigenere_loop_letters:
  assumes "ascii_conformant U" and "\<forall>c \<in> set xs. ascii_letter c" and "K \<noteq> []"
  shows "reference_vigenere_encrypt_loop U K acc ki xs = Inr (acc @ rot_by_key 1 K ki xs)"
  using assms(2)
proof (induction xs arbitrary: acc ki)
  case Nil
  show ?case by simp
next
  case (Cons c cs)
  then have "ascii_letter c" by simp
  from conformant_letter [OF assms(1) this] Cons assms(3) show ?case
    by (simp add: rot_def)
qed

lemma rot_by_key_letters: "\<forall>c \<in> set (rot_by_key sg K ki xs). ascii_letter c"
  by (induction xs arbitrary: ki) (simp_all add: rot_letter)

lemma rot_by_key_Nil: "rot_by_key sg K ki xs = [] \<longleftrightarrow> xs = []"
  by (cases xs) simp_all

lemma caesar_round_trip: "map (rot (- s)) (map (rot s) (rot_by_key sg K ki xs)) = rot_by_key sg K ki xs"
proof (induction xs arbitrary: ki)
  case Nil
  show ?case by simp
next
  case (Cons c cs)
  have "rot (- s) (rot s (rot n c)) = rot n c" for n
    by (simp add: rot_rot)
  with Cons show ?case
    by simp
qed

lemma vigenere_round_trip:
  "\<forall>c \<in> set xs. ascii_letter c \<Longrightarrow>
     rot_by_key (- 1) K ki (rot_by_key 1 K ki xs) = map ascii_upper xs"
proof (induction xs arbitrary: ki)
  case Nil
  show ?case by simp
next
  case (Cons c cs)
  then show ?case
    by (simp add: rot_rot rot_0)
qed

lemma py_upper_letters:
  assumes "ascii_conformant U" and "\<forall>c \<in> set xs. ascii_letter c"
  shows "py_upper U xs = map ascii_upper xs"
  using assms(2)
proof (induction xs)
  case Nil
  show ?case by (simp add: py_upper_def)
next
  case (Cons c cs)
  then have "upper_cp U c = [ascii_upper c]"
    using assms(1) by (simp add: ascii_conformant_def)
  with Cons show ?case
    by (simp add: py_upper_def)
qed

text \<open>
  C2, as the code has it. For every text of letters of the 26-letter alphabet
  (\<open>A\<close> to \<open>Z\<close>, \<open>a\<close> to \<open>z\<close>), every non-empty key and every integer shift, the
  reference encryption (Vigen\`ere, then Caesar) returns a ciphertext, and
  \<open>advanced_vigenere_decrypt\<close> with the same key and shift returns the upper-cased text.
  The upper-cased key is not empty: upper-casing maps every character to at least one
  character, so this holds for every non-empty key.
\<close>

theorem round_trip_on_letters:
  assumes "ascii_conformant U" and "\<forall>c \<in> set text. ascii_letter c"
    and "key \<noteq> []" and "py_upper U key \<noteq> []"
  shows "\<exists>ciphertext. reference_encrypt U text key caesar_shift = Inr ciphertext \<and>
           advanced_vigenere_decrypt U ciphertext key caesar_shift = Inr (py_upper U text) \<and>
           py_upper U text = map ascii_upper text"
proof -
  let ?K = "py_upper U key"
  let ?v = "rot_by_key 1 ?K 0 text"
  let ?c = "map (rot caesar_shift) ?v"
  have v: "reference_vigenere_encrypt U key text = Inr ?v"
    using reference_vigenere_loop_letters [OF assms(1,2,4), of "[]" 0]
    by (simp add: reference_vigenere_encrypt_def)
  have vl: "\<forall>c \<in> set ?v. ascii_letter c"
    by (rule rot_by_key_letters)
  have c: "reference_caesar_encrypt U caesar_shift ?v = Inr ?c"
    using reference_caesar_loop_letters [OF assms(1) vl, of caesar_shift "[]"]
    by (simp add: reference_caesar_encrypt_def)
  have enc: "reference_encrypt U text key caesar_shift = Inr ?c"
    by (simp add: reference_encrypt_def v c)
  have cl: "\<forall>c \<in> set ?c. ascii_letter c"
    by (simp add: rot_letter)
  have d1: "caesar_stage U caesar_shift ?c = Inr ?v"
    using caesar_loop_letters [OF assms(1) cl, of caesar_shift "[]"]
    by (simp only: caesar_stage_def caesar_round_trip append_Nil)
  have d2: "vigenere_stage U key ?v = Inr (map ascii_upper text)"
    using vigenere_loop_letters [OF assms(1) vl assms(4), of "[]" 0]
    by (simp only: vigenere_stage_def vigenere_round_trip [OF assms(2)] append_Nil)
  have up: "py_upper U text = map ascii_upper text"
    by (rule py_upper_letters [OF assms(1,2)])
  have dec: "advanced_vigenere_decrypt U ?c key caesar_shift = Inr (map ascii_upper text)"
  proof (cases "text = []")
    case True
    then show ?thesis
      by (simp add: advanced_vigenere_decrypt_def)
  next
    case False
    then have "?c \<noteq> []"
      by (simp add: rot_by_key_Nil)
    with assms(3) show ?thesis
      by (simp add: advanced_vigenere_decrypt_def d1 d2)
  qed
  from enc dec up show ?thesis
    by simp
qed


theorem round_trip_on_letters_witness:
  "reference_encrypt latin1 (str ''HelloWorld'') (str ''Rotom'') (- 7) = Inr (str ''RLXSTGVDSI'') \<and>
   advanced_vigenere_decrypt latin1 (str ''RLXSTGVDSI'') (str ''Rotom'') (- 7) =
     Inr (str ''HELLOWORLD'')"
proof -
  have l: "\<forall>c \<in> set (str ''HelloWorld''). ascii_letter c"
    by code_simp
  have k: "str ''Rotom'' \<noteq> []" "py_upper latin1 (str ''Rotom'') \<noteq> []"
    by code_simp+
  have e: "reference_encrypt latin1 (str ''HelloWorld'') (str ''Rotom'') (- 7) =
           Inr (str ''RLXSTGVDSI'')"
    by code_simp
  have u: "map ascii_upper (str ''HelloWorld'') = str ''HELLOWORLD''"
    by code_simp
  from round_trip_on_letters [OF latin1_ascii_conformant l k, of "- 7"] e u show ?thesis
    by auto
qed

text \<open>
  C2, as stated, fails. The text of the one character U+00E9 (e with an acute accent)
  is alphabetic for \<open>str.isalpha\<close>, and upper-cases to U+00C9.
  Its encryption under the key \<open>A\<close> and the shift 0 is \<open>G\<close>, which decrypts to \<open>G\<close>.
\<close>

theorem round_trip_fails_on_e_acute:
  "isalpha latin1 233 \<and>
   reference_encrypt latin1 [233] (str ''A'') 0 = Inr (str ''G'') \<and>
   advanced_vigenere_decrypt latin1 (str ''G'') (str ''A'') 0 = Inr (str ''G'') \<and>
   py_upper latin1 [233] = [201] \<and>
   str ''G'' \<noteq> [201]"
  by code_simp

text \<open>
  No other encryption would do: the decryption returns U+00C9 for no ciphertext, key and
  shift, since it emits a capital letter of the 26-letter alphabet for every alphabetic
  character.
\<close>

lemma no_ciphertext_decrypts_to_e_acute:
  "advanced_vigenere_decrypt latin1 ciphertext key caesar_shift \<noteq> Inr [201]"
proof
  assume a: "advanced_vigenere_decrypt latin1 ciphertext key caesar_shift = Inr [201]"
  then obtain cd where "vigenere_loop latin1 (py_upper latin1 key) [] 0 cd = Inr [201]"
    by (auto simp: advanced_vigenere_decrypt_def vigenere_stage_def split: if_splits sum.splits)
  from vigenere_loop_spec [OF this] obtain ys where ys: "[201] = [] @ ys" "length ys = length cd"
    and all: "\<forall>i < length cd.
              if isalpha latin1 (cd ! i)
              then \<exists>oc. py_ord (upper_cp latin1 (cd ! i)) = Inr oc \<and> py_upper latin1 key \<noteq> [] \<and>
                     ys ! i = py_chr ((oc - 65 -
                       (int (py_upper latin1 key !
                          ((0 + length (filter (isalpha latin1) (take i cd)))
                           mod length (py_upper latin1 key))) - 65)) mod 26 + 65)
              else ys ! i = cd ! i"
    by blast
  from ys have y: "ys = [201]" and "0 < length cd"
    by auto
  from all [rule_format, OF this(2)]
  have at: "if isalpha latin1 (cd ! 0)
             then \<exists>x. [201] ! 0 = py_chr (x mod 26 + 65)
             else [201] ! 0 = cd ! 0"
    unfolding y by (auto split: if_splits)
  show False
  proof (cases "isalpha latin1 (cd ! 0)")
    case True
    with at obtain x where "(201 :: nat) = py_chr (x mod 26 + 65)"
      by auto
    with py_chr_letter [of x] show False
      by (simp add: ascii_letter_def)
  next
    case False
    with at have "cd ! 0 = 201"
      by simp
    with False show False
      by (simp add: latin1_def latin1_isalpha_def)
  qed
qed

subsection \<open>When the decryption returns\<close>

text \<open>
  The decryption raises \<open>TypeError\<close> on an alphabetic character whose upper-case mapping
  has several characters, and on no other text: with a key whose upper case is not
  empty it returns whenever every alphabetic character of the ciphertext has an
  upper-case mapping of one character.
\<close>

lemma caesar_loop_returns:
  assumes "\<forall>c \<in> set xs. isalpha U c \<longrightarrow> length (upper_cp U c) = 1"
    and "\<forall>c \<in> set acc. isalpha U c \<longrightarrow> ascii_letter c"
  shows "\<exists>out. caesar_loop U s acc xs = Inr out \<and> (\<forall>c \<in> set out. isalpha U c \<longrightarrow> ascii_letter c)"
  using assms
proof (induction xs arbitrary: acc)
  case Nil
  then show ?case by simp
next
  case (Cons ch rest)
  show ?case
  proof (cases "isalpha U ch")
    case True
    with Cons.prems(1) have "length (upper_cp U ch) = 1"
      by simp
    then obtain u where "upper_cp U ch = [u]"
      by (cases "upper_cp U ch") auto
    then have o: "py_ord (upper_cp U ch) = Inr (int u)"
      by simp
    let ?y = "py_chr ((int u - 65 - s) mod 26 + 65)"
    have "\<forall>c \<in> set (acc @ [?y]). isalpha U c \<longrightarrow> ascii_letter c"
      using Cons.prems(2) by (simp add: py_chr_letter)
    moreover have "\<forall>c \<in> set rest. isalpha U c \<longrightarrow> length (upper_cp U c) = 1"
      using Cons.prems(1) by simp
    ultimately obtain out where "caesar_loop U s (acc @ [?y]) rest = Inr out"
      "\<forall>c \<in> set out. isalpha U c \<longrightarrow> ascii_letter c"
      using Cons.IH by blast
    with True o show ?thesis
      by simp
  next
    case False
    then have "\<forall>c \<in> set (acc @ [ch]). isalpha U c \<longrightarrow> ascii_letter c"
      using Cons.prems(2) by simp
    moreover have "\<forall>c \<in> set rest. isalpha U c \<longrightarrow> length (upper_cp U c) = 1"
      using Cons.prems(1) by simp
    ultimately obtain out where "caesar_loop U s (acc @ [ch]) rest = Inr out"
      "\<forall>c \<in> set out. isalpha U c \<longrightarrow> ascii_letter c"
      using Cons.IH by blast
    with False show ?thesis
      by simp
  qed
qed

lemma vigenere_loop_returns:
  assumes "ascii_conformant U" and "K \<noteq> []"
    and "\<forall>c \<in> set xs. isalpha U c \<longrightarrow> ascii_letter c"
  shows "\<exists>out. vigenere_loop U K acc ki xs = Inr out"
  using assms(3)
proof (induction xs arbitrary: acc ki)
  case Nil
  show ?case by simp
next
  case (Cons ch rest)
  show ?case
  proof (cases "isalpha U ch")
    case True
    with Cons.prems have "ascii_letter ch"
      by simp
    with assms(1) have "py_ord (upper_cp U ch) = Inr (int (ascii_upper ch))"
      by (simp add: ascii_conformant_def)
    with True assms(2) Cons show ?thesis
      by (simp add: Let_def)
  next
    case False
    with Cons show ?thesis
      by simp
  qed
qed

lemma decrypt_returns:
  assumes "ascii_conformant U" and "py_upper U key \<noteq> []"
    and "\<forall>c \<in> set ciphertext. isalpha U c \<longrightarrow> length (upper_cp U c) = 1"
  shows "\<exists>plaintext. advanced_vigenere_decrypt U ciphertext key caesar_shift = Inr plaintext"
proof -
  from caesar_loop_returns [OF assms(3), of "[]" caesar_shift]
  obtain cd where cd: "caesar_loop U caesar_shift [] ciphertext = Inr cd"
    and l: "\<forall>c \<in> set cd. isalpha U c \<longrightarrow> ascii_letter c"
    by auto
  from vigenere_loop_returns [OF assms(1,2) l, of "[]" 0]
  obtain pt where "vigenere_loop U (py_upper U key) [] 0 cd = Inr pt"
    by blast
  with cd show ?thesis
    by (simp add: advanced_vigenere_decrypt_def caesar_stage_def vigenere_stage_def)
qed

lemma decrypt_raises_on_sharp_s:
  "isalpha latin1 223 \<and> upper_cp latin1 223 = str ''SS'' \<and>
   advanced_vigenere_decrypt latin1 [223] (str ''A'') 0 = Inl TypeError"
  by code_simp

end
